theory Spec2Isabelle
  imports
    Main
    "HOL-Library.Multiset"
    "HOL-Library.List_Lexorder"
    "HOL-Library.Product_Lexorder"
begin

section \<open>Strings\<close>

text \<open>
  JavaScript strings are modelled as \<^typ>\<open>string\<close>, one \<^typ>\<open>char\<close> per code unit
  (code units below 256). The server is taken to run on a POSIX host, so that Node's
  \<^verbatim>\<open>path\<close> is \<^verbatim>\<open>path.posix\<close> and \<^verbatim>\<open>path.sep\<close> is the slash.
\<close>

definition slash :: char where
  "slash = CHR ''/''"

definition backslash :: char where
  "backslash = CHR 0x5C"

definition dquote :: char where
  "dquote = CHR 0x22"

definition squote :: char where
  "squote = CHR 0x27"

text \<open>\<^verbatim>\<open>s.startsWith(p)\<close>\<close>

definition startsWith :: "string \<Rightarrow> string \<Rightarrow> bool" where
  "startsWith p s = (take (length p) s = p)"

text \<open>\<^verbatim>\<open>s.includes(p)\<close>\<close>

fun includesStr :: "string \<Rightarrow> string \<Rightarrow> bool" where
  "includesStr p [] = (p = [])"
| "includesStr p (c # cs) = (startsWith p (c # cs) \<or> includesStr p cs)"

text \<open>\<^verbatim>\<open>s.replace(/\\/g, "/")\<close>\<close>

definition replaceBackslashes :: "string \<Rightarrow> string" where
  "replaceBackslashes s = map (\<lambda>c. if c = backslash then slash else c) s"

text \<open>\<^verbatim>\<open>s.split("/")\<close>: the pieces between slashes, empty pieces included.\<close>

fun splitSlash :: "string \<Rightarrow> string list" where
  "splitSlash [] = [[]]"
| "splitSlash (c # cs) =
     (if c = slash then [] # splitSlash cs
      else (case splitSlash cs of
              [] \<Rightarrow> [[c]]
            | seg # segs \<Rightarrow> (c # seg) # segs))"

text \<open>\<^verbatim>\<open>segs.join("/")\<close>\<close>

fun joinSlash :: "string list \<Rightarrow> string" where
  "joinSlash [] = []"
| "joinSlash [seg] = seg"
| "joinSlash (seg # segs) = seg @ slash # joinSlash segs"

text \<open>
  \<^verbatim>\<open>s.toLowerCase()\<close> on code units below 256: the letters A to Z and the capital
  letters from U+00C0 to U+00DE (U+00D7, the multiplication sign, is no letter) move up
  by 32.
\<close>

definition lowerChar :: "char \<Rightarrow> char" where
  "lowerChar c =
     (let n = (of_char c :: nat)
      in if (65 \<le> n \<and> n \<le> 90) \<or> (192 \<le> n \<and> n \<le> 222 \<and> n \<noteq> 215)
         then char_of (n + 32) else c)"

definition toLowerCase :: "string \<Rightarrow> string" where
  "toLowerCase s = map lowerChar s"

section \<open>Node's path module (POSIX)\<close>

text \<open>
  \<^verbatim>\<open>normalizeString(path, allowAboveRoot)\<close> of Node's \<^verbatim>\<open>lib/path.js\<close>, on segments:
  the result is kept as the list of its segments. Empty segments and \<^verbatim>\<open>.\<close> are dropped;
  \<^verbatim>\<open>..\<close> removes the last segment unless there is none or it is \<^verbatim>\<open>..\<close> itself, in
  which case \<^verbatim>\<open>..\<close> is kept when the path may climb above its start.
\<close>

definition normStep :: "bool \<Rightarrow> string list \<Rightarrow> string \<Rightarrow> string list" where
  "normStep allowAboveRoot res seg =
     (if seg = [] \<or> seg = ''.'' then res
      else if seg = ''..'' then
        (if res \<noteq> [] \<and> last res \<noteq> ''..'' then butlast res
         else if allowAboveRoot then res @ [''..'']
         else res)
      else res @ [seg])"

definition normalizeString :: "string \<Rightarrow> bool \<Rightarrow> string list" where
  "normalizeString p allowAboveRoot = foldl (normStep allowAboveRoot) [] (splitSlash p)"

text \<open>\<^verbatim>\<open>path.posix.isAbsolute(p)\<close>\<close>

definition posix_isAbsolute :: "string \<Rightarrow> bool" where
  "posix_isAbsolute p = (p \<noteq> [] \<and> hd p = slash)"

text \<open>\<^verbatim>\<open>path.posix.normalize(p)\<close>\<close>

definition posix_normalize :: "string \<Rightarrow> string" where
  "posix_normalize p =
     (if p = [] then ''.''
      else
        let isAbsolute = (hd p = slash);
            trailingSeparator = (last p = slash);
            segs = normalizeString p (\<not> isAbsolute)
        in if segs = [] then
             (if isAbsolute then ''/'' else if trailingSeparator then ''./'' else ''.'')
           else
             (if isAbsolute then ''/'' else []) @ joinSlash segs
               @ (if trailingSeparator then ''/'' else []))"

text \<open>\<^verbatim>\<open>path.posix.join(a, b)\<close>: the non-empty arguments joined by a slash, normalized.\<close>

definition posix_join :: "string \<Rightarrow> string \<Rightarrow> string" where
  "posix_join a b =
     (let parts = filter (\<lambda>s. s \<noteq> []) [a, b]
      in if parts = [] then ''.'' else posix_normalize (joinSlash parts))"

text \<open>
  \<^verbatim>\<open>path.posix.dirname(p)\<close>: trailing slashes are skipped, then the path is cut at the
  last slash left (the first character is never the cut).
\<close>

definition posix_dirname :: "string \<Rightarrow> string" where
  "posix_dirname p =
     (if p = [] then ''.''
      else
        let hasRoot = (hd p = slash);
            afterName = dropWhile (\<lambda>c. c \<noteq> slash) (dropWhile (\<lambda>c. c = slash) (rev (tl p)));
            endIx = length afterName
        in if afterName = [] then (if hasRoot then ''/'' else ''.'')
           else if hasRoot \<and> endIx = 1 then ''//''
           else take endIx p)"

text \<open>
  \<^verbatim>\<open>path.resolve(p)\<close> with one argument; \<open>cwd\<close> is \<^verbatim>\<open>process.cwd()\<close>. The result of
  an absolute resolution is a slash followed by the normalized segments.
\<close>

definition resolveSegments :: "string \<Rightarrow> string \<Rightarrow> string list" where
  "resolveSegments cwd p =
     (let own = (if p = [] then [] else p @ ''/'');
          full = (if posix_isAbsolute p \<or> cwd = [] then own else cwd @ ''/'' @ own)
      in normalizeString full (\<not> (posix_isAbsolute p \<or> posix_isAbsolute cwd)))"

definition path_resolve :: "string \<Rightarrow> string \<Rightarrow> string" where
  "path_resolve cwd p =
     (let segs = resolveSegments cwd p
      in if posix_isAbsolute p \<or> posix_isAbsolute cwd then slash # joinSlash segs
         else if segs = [] then ''.'' else joinSlash segs)"

text \<open>
  \<^verbatim>\<open>path.relative(from, to)\<close>: both paths are resolved, their common leading segments
  are dropped, every segment left of \<open>from\<close> becomes \<^verbatim>\<open>..\<close>, and the rest of \<open>to\<close> follows.
\<close>

fun dropCommon :: "string list \<Rightarrow> string list \<Rightarrow> string list \<times> string list" where
  "dropCommon (x # xs) (y # ys) = (if x = y then dropCommon xs ys else (x # xs, y # ys))"
| "dropCommon xs ys = (xs, ys)"

definition path_relative :: "string \<Rightarrow> string \<Rightarrow> string \<Rightarrow> string" where
  "path_relative cwd from to =
     (if from = to then []
      else
        let (restFrom, restTo) = dropCommon (resolveSegments cwd from) (resolveSegments cwd to)
        in joinSlash (replicate (length restFrom) ''..'' @ restTo))"

text \<open>
  \<^verbatim>\<open>path.extname(p)\<close>: from the last dot of the last segment (trailing slashes skipped) to
  its end; empty when that segment has no dot, starts with its only dot, or is \<^verbatim>\<open>..\<close>.
\<close>

definition lastSegment :: "string \<Rightarrow> string" where
  "lastSegment p = rev (takeWhile (\<lambda>c. c \<noteq> slash) (dropWhile (\<lambda>c. c = slash) (rev p)))"

definition path_extname :: "string \<Rightarrow> string" where
  "path_extname p =
     (let base = lastSegment p;
          ext = takeWhile (\<lambda>c. c \<noteq> CHR ''.'') (rev base);
          startDot = length base - length ext - 1
      in if CHR ''.'' \<notin> set base \<or> startDot = 0 \<or> base = ''..'' then []
         else drop startDot base)"

section \<open>Safe ZIP extraction\<close>

datatype error = ZIP_LIMITS_EXCEEDED | UNSAFE_ZIP_PATH | OTHER_ERROR

record limits =
  maxFiles :: nat
  maxFileBytes :: nat
  maxTotalBytes :: nat

text \<open>
  What the two streams of an entry emit while the entry is piped: \<^verbatim>\<open>data\<close> events of the
  read stream, each with the length of its chunk, possibly cut short by an \<^verbatim>\<open>error\<close>
  event of the read stream or of the write stream; the end of the list is the end of the
  read stream, after which the write stream finishes.
\<close>

datatype stream_event = Data nat | ReadError | WriteError

record zip_entry =
  isDirectory :: bool
  entryPath :: string
  uncompressedSize :: "nat option"
  stream :: "stream_event list"

text \<open>
  The state of one run of \<^verbatim>\<open>safeExtractZip\<close>: its two counters, the files it has opened
  for writing with the number of bytes piped into each, and the directories that exist, each
  as the list of its resolved segments. The target directory of a job is new (its name is a
  fresh UUID), so the files below it are the files of this run.
\<close>

record extract_state =
  extractedTotalBytes :: nat
  extractedFilesCount :: nat
  written :: "(string \<times> nat) list"
  directories :: "string list set"

text \<open>A directory and all the directories above it, the root first.\<close>

definition pathPrefixes :: "string list \<Rightarrow> string list list" where
  "pathPrefixes segs = map (\<lambda>k. take k segs) [0..<Suc (length segs)]"

text \<open>
  \<^verbatim>\<open>fs.promises.mkdir(dir, { recursive: true })\<close> throws (EEXIST, ENOTDIR) when \<open>dir\<close> or a
  directory above it is a file; otherwise \<open>dir\<close> and the directories above it exist
  afterwards.
\<close>

definition mkdirBlocked :: "string \<Rightarrow> (string \<times> nat) list \<Rightarrow> string \<Rightarrow> bool" where
  "mkdirBlocked cwd files dir =
     (\<exists>a\<in>set (pathPrefixes (resolveSegments cwd dir)).
        a \<in> set (map (\<lambda>f. resolveSegments cwd (fst f)) files))"

definition madeDirectories :: "string \<Rightarrow> string \<Rightarrow> string list set" where
  "madeDirectories cwd dir = set (pathPrefixes (resolveSegments cwd dir))"

text \<open>
  \<^verbatim>\<open>fs.createWriteStream(destinationPath)\<close> opens the file for writing, and the open fails
  (EISDIR) when the path is a directory or ends in a slash; the write stream then emits
  \<^verbatim>\<open>error\<close>. A file that is there already is opened and cut to length zero.
\<close>

definition openFails :: "string \<Rightarrow> string list set \<Rightarrow> string \<Rightarrow> bool" where
  "openFails cwd dirs destinationPath =
     ((destinationPath \<noteq> [] \<and> last destinationPath = slash)
      \<or> resolveSegments cwd destinationPath \<in> dirs)"

text \<open>
  The promise around the two streams, once the destination is open. The \<^verbatim>\<open>data\<close>
  listener of the source runs before the one \<^verbatim>\<open>pipe\<close> installs, so the chunk that passes
  the limit finds the write stream destroyed and is not written. An \<^verbatim>\<open>error\<close> of either
  stream rejects the promise. The result is the rejection, if any, and the bytes piped.
\<close>

fun pipeEntry :: "nat \<Rightarrow> nat \<Rightarrow> stream_event list \<Rightarrow> error option \<times> nat" where
  "pipeEntry lim writtenBytes [] = (None, writtenBytes)"
| "pipeEntry lim writtenBytes (ReadError # evs) = (Some OTHER_ERROR, writtenBytes)"
| "pipeEntry lim writtenBytes (WriteError # evs) = (Some OTHER_ERROR, writtenBytes)"
| "pipeEntry lim writtenBytes (Data n # evs) =
     (if writtenBytes + n > lim then (Some ZIP_LIMITS_EXCEEDED, writtenBytes)
      else pipeEntry lim (writtenBytes + n) evs)"

text \<open>\<^verbatim>\<open>Number(entry.uncompressedSize || 0)\<close>\<close>

definition declaredSize :: "zip_entry \<Rightarrow> nat" where
  "declaredSize e = (case uncompressedSize e of None \<Rightarrow> 0 | Some n \<Rightarrow> n)"

definition normalizedRelPath :: "zip_entry \<Rightarrow> string" where
  "normalizedRelPath e = posix_normalize (replaceBackslashes (entryPath e))"

text \<open>The first path check of the loop body.\<close>

definition unsafeRelPath :: "string \<Rightarrow> bool" where
  "unsafeRelPath n = (startsWith ''..'' n \<or> includesStr ''/../'' n \<or> posix_isAbsolute n)"

text \<open>The second path check: the resolved destination against the resolved target.\<close>

definition insideTarget :: "string \<Rightarrow> string \<Rightarrow> string \<Rightarrow> bool" where
  "insideTarget cwd targetDir destinationPath =
     (let resolvedTargetDir = path_resolve cwd targetDir;
          resolvedDestinationPath = path_resolve cwd destinationPath
      in startsWith (resolvedTargetDir @ [slash]) resolvedDestinationPath
         \<or> resolvedDestinationPath = resolvedTargetDir)"

text \<open>
  One turn of the loop of \<^verbatim>\<open>safeExtractZip\<close>: the error thrown, if any, and the state
  left behind. After the checks come the \<^verbatim>\<open>mkdir\<close> of the parent of the destination,
  which may throw, the open of the destination, whose failure is the first event of the
  write stream, and the piping of the entry.
\<close>

definition extractEntry ::
  "string \<Rightarrow> limits \<Rightarrow> string \<Rightarrow> extract_state \<Rightarrow> zip_entry \<Rightarrow> error option \<times> extract_state"
where
  "extractEntry cwd lim targetDir st e =
     (if isDirectory e then (None, st)
      else
        let st1 = st\<lparr>extractedFilesCount := extractedFilesCount st + 1\<rparr> in
        if extractedFilesCount st1 > maxFiles lim then (Some ZIP_LIMITS_EXCEEDED, st1)
        else if declaredSize e > maxFileBytes lim then (Some ZIP_LIMITS_EXCEEDED, st1)
        else
          let st2 = st1\<lparr>extractedTotalBytes := extractedTotalBytes st1 + declaredSize e\<rparr> in
          if extractedTotalBytes st2 > maxTotalBytes lim then (Some ZIP_LIMITS_EXCEEDED, st2)
          else if unsafeRelPath (normalizedRelPath e) then (Some UNSAFE_ZIP_PATH, st2)
          else
            let destinationPath = posix_join targetDir (normalizedRelPath e) in
            if \<not> insideTarget cwd targetDir destinationPath then (Some UNSAFE_ZIP_PATH, st2)
            else if mkdirBlocked cwd (written st2) (posix_dirname destinationPath)
            then (Some OTHER_ERROR, st2)
            else
              let st3 = st2\<lparr>directories :=
                          directories st2 \<union> madeDirectories cwd (posix_dirname destinationPath)\<rparr>
              in
              if openFails cwd (directories st3) destinationPath then (Some OTHER_ERROR, st3)
              else
                let (err, writtenBytes) = pipeEntry (maxFileBytes lim) 0 (stream e)
                in (err, st3\<lparr>written := written st3 @ [(destinationPath, writtenBytes)]\<rparr>))"

fun extractEntries ::
  "string \<Rightarrow> limits \<Rightarrow> string \<Rightarrow> extract_state \<Rightarrow> zip_entry list \<Rightarrow> error option \<times> extract_state"
where
  "extractEntries cwd lim targetDir st [] = (None, st)"
| "extractEntries cwd lim targetDir st (e # es) =
     (case extractEntry cwd lim targetDir st e of
        (Some err, st') \<Rightarrow> (Some err, st')
      | (None, st') \<Rightarrow> extractEntries cwd lim targetDir st' es)"

text \<open>
  The state after the first line of \<^verbatim>\<open>safeExtractZip\<close>, the \<^verbatim>\<open>mkdir\<close> of the target:
  nothing counted, no file written, the target and the directories above it present.
\<close>

definition initialState :: "string \<Rightarrow> string \<Rightarrow> extract_state" where
  "initialState cwd targetDir =
     \<lparr>extractedTotalBytes = 0, extractedFilesCount = 0, written = [],
      directories = madeDirectories cwd targetDir\<rparr>"

definition safeExtractZip ::
  "string \<Rightarrow> zip_entry list \<Rightarrow> string \<Rightarrow> limits \<Rightarrow> error option \<times> extract_state"
where
  "safeExtractZip cwd zipFiles targetDir lim =
     extractEntries cwd lim targetDir (initialState cwd targetDir) zipFiles"

section \<open>Import specifiers\<close>

text \<open>\<^verbatim>\<open>isLocalImportSpecifier(spec)\<close>\<close>

definition isLocalImportSpecifier :: "string \<Rightarrow> bool" where
  "isLocalImportSpecifier spec = (startsWith ''./'' spec \<or> startsWith ''../'' spec)"

text \<open>
  The character classes of the three regular expressions: \<^verbatim>\<open>\s\<close> (tab, line feed,
  vertical tab, form feed, carriage return, space, no-break space) and \<^verbatim>\<open>["']\<close>.
\<close>

definition isSpaceJs :: "char \<Rightarrow> bool" where
  "isSpaceJs c = ((of_char c :: nat) \<in> {9, 10, 11, 12, 13, 32, 160})"

definition isQuote :: "char \<Rightarrow> bool" where
  "isQuote c = (c = dquote \<or> c = squote)"

text \<open>A literal piece of a pattern: the rest of the text after it.\<close>

fun dropPrefix :: "string \<Rightarrow> string \<Rightarrow> string option" where
  "dropPrefix [] s = Some s"
| "dropPrefix (p # ps) [] = None"
| "dropPrefix (p # ps) (c # cs) = (if p = c then dropPrefix ps cs else None)"

text \<open>
  \<^verbatim>\<open>\s+\<close> and \<^verbatim>\<open>\s*\<close> in front of a character that is not white space (a quote, a
  closing parenthesis): only the longest run can be followed by a match.
\<close>

definition spacesPlus :: "string \<Rightarrow> string option" where
  "spacesPlus s = (if takeWhile isSpaceJs s = [] then None else Some (dropWhile isSpaceJs s))"

definition spacesStar :: "string \<Rightarrow> string" where
  "spacesStar s = dropWhile isSpaceJs s"

text \<open>
  \<^verbatim>\<open>["']([^"']+)["']\<close>: a quote, the longest run of characters that are not quotes (not
  empty), a quote. The result is the captured group and the text after the match.
\<close>

definition quotedSpec :: "string \<Rightarrow> (string \<times> string) option" where
  "quotedSpec s =
     (case s of
        [] \<Rightarrow> None
      | q # r \<Rightarrow>
          if \<not> isQuote q then None
          else (case dropWhile (\<lambda>c. \<not> isQuote c) r of
                  [] \<Rightarrow> None
                | q' # rest \<Rightarrow>
                    if takeWhile (\<lambda>c. \<not> isQuote c) r = [] then None
                    else Some (takeWhile (\<lambda>c. \<not> isQuote c) r, rest)))"

text \<open>\<^verbatim>\<open>/import\s+["']([^"']+)["']/\<close> at the start of the text.\<close>

definition matchImportBare :: "string \<Rightarrow> (string \<times> string) option" where
  "matchImportBare s =
     (case dropPrefix ''import'' s of
        None \<Rightarrow> None
      | Some r \<Rightarrow> (case spacesPlus r of None \<Rightarrow> None | Some r' \<Rightarrow> quotedSpec r'))"

text \<open>\<^verbatim>\<open>/require\(\s*["']([^"']+)["']\s*\)/\<close> at the start of the text.\<close>

definition matchRequire :: "string \<Rightarrow> (string \<times> string) option" where
  "matchRequire s =
     (case dropPrefix ''require('' s of
        None \<Rightarrow> None
      | Some r \<Rightarrow>
          (case quotedSpec (spacesStar r) of
             None \<Rightarrow> None
           | Some (spec, r') \<Rightarrow>
               (case dropPrefix '')'' (spacesStar r') of
                  None \<Rightarrow> None
                | Some rest \<Rightarrow> Some (spec, rest))))"

text \<open>
  \<^verbatim>\<open>/import\s+[^;]*?\sfrom\s+["']([^"']+)["']/\<close> at the start of the text, with the
  backtracking of the matcher written out: \<^verbatim>\<open>\s+\<close> gives back its characters one at a
  time, longest run first (\<open>importFromLeading\<close>); after each, the lazy \<^verbatim>\<open>[^;]*?\<close> grows
  one character at a time, shortest first (\<open>importFromLazy\<close>); at each position the rest of
  the pattern is tried (\<open>importFromTail\<close>).
\<close>

definition importFromTail :: "string \<Rightarrow> (string \<times> string) option" where
  "importFromTail t =
     (case t of
        [] \<Rightarrow> None
      | w # t1 \<Rightarrow>
          if \<not> isSpaceJs w then None
          else (case dropPrefix ''from'' t1 of
                  None \<Rightarrow> None
                | Some t2 \<Rightarrow> (case spacesPlus t2 of None \<Rightarrow> None | Some t3 \<Rightarrow> quotedSpec t3)))"

fun importFromLazy :: "string \<Rightarrow> (string \<times> string) option" where
  "importFromLazy [] = None"
| "importFromLazy (c # cs) =
     (case importFromTail (c # cs) of
        Some r \<Rightarrow> Some r
      | None \<Rightarrow> if c = CHR '';'' then None else importFromLazy cs)"

fun importFromLeading :: "nat \<Rightarrow> string \<Rightarrow> (string \<times> string) option" where
  "importFromLeading 0 r = None"
| "importFromLeading (Suc k) r =
     (case importFromLazy (drop (Suc k) r) of
        Some m \<Rightarrow> Some m
      | None \<Rightarrow> importFromLeading k r)"

definition matchImportFrom :: "string \<Rightarrow> (string \<times> string) option" where
  "matchImportFrom s =
     (case dropPrefix ''import'' s of
        None \<Rightarrow> None
      | Some r \<Rightarrow> importFromLeading (length (takeWhile isSpaceJs r)) r)"

datatype import_re = IMPORT_FROM_RE | IMPORT_BARE_RE | REQUIRE_RE

fun matchAt :: "import_re \<Rightarrow> string \<Rightarrow> (string \<times> string) option" where
  "matchAt IMPORT_FROM_RE s = matchImportFrom s"
| "matchAt IMPORT_BARE_RE s = matchImportBare s"
| "matchAt REQUIRE_RE s = matchRequire s"

lemma dropPrefix_length: "dropPrefix p s = Some r \<Longrightarrow> length s = length p + length r"
  by (induction p s rule: dropPrefix.induct) (auto split: if_splits)

lemma spacesPlus_length: "spacesPlus s = Some r \<Longrightarrow> length r \<le> length s"
  by (auto simp: spacesPlus_def length_dropWhile_le split: if_splits)

lemma quotedSpec_length: "quotedSpec s = Some (g, r) \<Longrightarrow> length r < length s"
proof -
  assume a: "quotedSpec s = Some (g, r)"
  then obtain q t q' where s: "s = q # t" and d: "dropWhile (\<lambda>c. \<not> isQuote c) t = q' # r"
    by (auto simp: quotedSpec_def split: list.splits if_splits)
  have "length (dropWhile (\<lambda>c. \<not> isQuote c) t) \<le> length t" by (rule length_dropWhile_le)
  with s d show ?thesis by simp
qed

lemma importFromTail_length: "importFromTail t = Some (g, r) \<Longrightarrow> length r < length t"
  by (auto simp: importFromTail_def split: list.splits if_splits option.splits
      dest!: dropPrefix_length spacesPlus_length quotedSpec_length)

lemma importFromLazy_length: "importFromLazy t = Some (g, r) \<Longrightarrow> length r < length t"
  by (induction t) (auto split: option.splits if_splits dest!: importFromTail_length)

lemma importFromLeading_length: "importFromLeading k t = Some (g, r) \<Longrightarrow> length r < length t"
  by (induction k) (auto split: option.splits dest!: importFromLazy_length)

lemma matchAt_length: "matchAt re s = Some (g, r) \<Longrightarrow> length r < length s"
proof (cases re)
  case IMPORT_FROM_RE
  assume "matchAt re s = Some (g, r)"
  with IMPORT_FROM_RE show ?thesis
    by (auto simp: matchImportFrom_def split: option.splits
        dest!: dropPrefix_length importFromLeading_length)
next
  case IMPORT_BARE_RE
  assume "matchAt re s = Some (g, r)"
  with IMPORT_BARE_RE show ?thesis
    by (auto simp: matchImportBare_def split: option.splits
        dest!: dropPrefix_length spacesPlus_length quotedSpec_length)
next
  case REQUIRE_RE
  assume a: "matchAt re s = Some (g, r)"
  with REQUIRE_RE obtain r1 r2 where 1: "dropPrefix ''require('' s = Some r1"
    and 2: "quotedSpec (spacesStar r1) = Some (g, r2)"
    and 3: "dropPrefix '')'' (spacesStar r2) = Some r"
    by (auto simp: matchRequire_def split: option.splits prod.splits)
  have "length (spacesStar r1) \<le> length r1" "length (spacesStar r2) \<le> length r2"
    by (simp_all add: spacesStar_def length_dropWhile_le)
  with dropPrefix_length[OF 1] quotedSpec_length[OF 2] dropPrefix_length[OF 3]
  show ?thesis by simp
qed

text \<open>
  \<^verbatim>\<open>while ((match = RE.exec(fileContent))) ...\<close> for a global expression: the leftmost match
  at or after \<^verbatim>\<open>lastIndex\<close>, then on from the end of that match; the captured groups in
  the order found.
\<close>

function execAll :: "import_re \<Rightarrow> string \<Rightarrow> string list" where
  "execAll re s =
     (case matchAt re s of
        Some (spec, rest) \<Rightarrow> spec # execAll re rest
      | None \<Rightarrow> (case s of [] \<Rightarrow> [] | c # cs \<Rightarrow> execAll re cs))"
  by pat_completeness auto
termination
  by (relation "measure (\<lambda>(re, s). length s)") (auto dest: matchAt_length)

declare execAll.simps [simp del]

text \<open>\<^verbatim>\<open>set.add(x)\<close> on a \<^verbatim>\<open>Set\<close>, which keeps the order of first insertion.\<close>

definition setAdd :: "'a list \<Rightarrow> 'a \<Rightarrow> 'a list" where
  "setAdd xs x = (if x \<in> set xs then xs else xs @ [x])"

definition extractImportSpecifiers :: "string \<Rightarrow> string list" where
  "extractImportSpecifiers fileContent =
     foldl setAdd
       (foldl setAdd (foldl setAdd [] (execAll IMPORT_FROM_RE fileContent))
          (execAll IMPORT_BARE_RE fileContent))
       (execAll REQUIRE_RE fileContent)"

section \<open>Import resolution\<close>

definition importBase :: "string \<Rightarrow> string \<Rightarrow> string" where
  "importBase fromFileRelPath importSpec =
     (let fromDir = posix_dirname (replaceBackslashes fromFileRelPath)
      in posix_normalize (posix_join fromDir (replaceBackslashes importSpec)))"

definition importCandidates :: "string \<Rightarrow> string \<Rightarrow> string list" where
  "importCandidates fromFileRelPath importSpec =
     (let base = importBase fromFileRelPath importSpec
      in [base, base @ ''.js'', base @ ''.jsx'', base @ ''.ts'', base @ ''.tsx'',
          posix_join base ''index.js'', posix_join base ''index.jsx'',
          posix_join base ''index.ts'', posix_join base ''index.tsx''])"

definition resolveImportToRelativeFile :: "string \<Rightarrow> string \<Rightarrow> string set \<Rightarrow> string option" where
  "resolveImportToRelativeFile fromFileRelPath importSpec existingRelPathsSet =
     find (\<lambda>candidate. candidate \<in> existingRelPathsSet)
       (importCandidates fromFileRelPath importSpec)"

section \<open>The graph of local imports\<close>

record graph =
  nodes :: "string list"
  edges :: "(string \<times> string) list"

definition CODE_EXTENSIONS :: "string set" where
  "CODE_EXTENSIONS = {''.js'', ''.jsx'', ''.ts'', ''.tsx''}"

definition codeFiles :: "string list \<Rightarrow> string list" where
  "codeFiles filePathsAbs =
     filter (\<lambda>absPath. toLowerCase (path_extname absPath) \<in> CODE_EXTENSIONS) filePathsAbs"

text \<open>\<^verbatim>\<open>path.relative(rootDir, absPath).replace(/\\/g, "/")\<close>\<close>

definition relPathOf :: "string \<Rightarrow> string \<Rightarrow> string \<Rightarrow> string" where
  "relPathOf cwd rootDir absPath = replaceBackslashes (path_relative cwd rootDir absPath)"

definition edgeKey :: "string \<Rightarrow> string \<Rightarrow> string" where
  "edgeKey fromRelPath targetRelPath = fromRelPath @ ''=>'' @ targetRelPath"

text \<open>
  The body of the loop over the specifiers of one file, on the pair of \<^verbatim>\<open>edges\<close> and
  \<^verbatim>\<open>edgeKeySet\<close>. A result that is \<^verbatim>\<open>null\<close> or the empty string is skipped.
\<close>

definition addEdge ::
  "string \<Rightarrow> string set \<Rightarrow> (string \<times> string) list \<times> string set \<Rightarrow> string
   \<Rightarrow> (string \<times> string) list \<times> string set"
where
  "addEdge fromRelPath relPathsSet st spec =
     (case resolveImportToRelativeFile fromRelPath spec relPathsSet of
        None \<Rightarrow> st
      | Some targetRelPath \<Rightarrow>
          if targetRelPath = [] then st
          else if edgeKey fromRelPath targetRelPath \<in> snd st then st
          else (fst st @ [(fromRelPath, targetRelPath)],
                insert (edgeKey fromRelPath targetRelPath) (snd st)))"

text \<open>
  The body of the loop over the files; \<open>readFile\<close> gives the content of a file, or nothing
  when \<^verbatim>\<open>fs.promises.readFile\<close> throws.
\<close>

definition scanFile ::
  "(string \<Rightarrow> string option) \<Rightarrow> string set \<Rightarrow> (string \<times> string) list \<times> string set
   \<Rightarrow> string \<times> string \<Rightarrow> (string \<times> string) list \<times> string set"
where
  "scanFile readFile relPathsSet st file =
     (case readFile (fst file) of
        None \<Rightarrow> st
      | Some fileContent \<Rightarrow>
          foldl (addEdge (snd file) relPathsSet) st
            (filter isLocalImportSpecifier (extractImportSpecifiers fileContent)))"

definition buildLocalImportsGraph ::
  "string \<Rightarrow> (string \<Rightarrow> string option) \<Rightarrow> string \<Rightarrow> string list \<Rightarrow> graph"
where
  "buildLocalImportsGraph cwd readFile rootDir filePathsAbs =
     (let codeFilesAbs = codeFiles filePathsAbs;
          relPaths = map (relPathOf cwd rootDir) codeFilesAbs;
          relPathsSet = set relPaths
      in \<lparr>nodes = relPaths,
          edges = fst (foldl (scanFile readFile relPathsSet) ([], {}) (zip codeFilesAbs relPaths))\<rparr>)"

section \<open>Statistics\<close>

text \<open>
  A \<^verbatim>\<open>Map\<close> (and an object with string keys) as the list of its entries in the order of
  first insertion: \<^verbatim>\<open>m.set(k, v)\<close> replaces the value of a key that is present, in
  place, and appends a new key; \<^verbatim>\<open>m.get(k)\<close> is \<^const>\<open>map_of\<close>.
\<close>

fun mapSet :: "('k \<times> 'v) list \<Rightarrow> 'k \<Rightarrow> 'v \<Rightarrow> ('k \<times> 'v) list" where
  "mapSet [] k v = [(k, v)]"
| "mapSet (entry # m) k v = (if fst entry = k then (k, v) # m else entry # mapSet m k v)"

text \<open>\<^verbatim>\<open>x || 0\<close> for a count that may be undefined.\<close>

definition orZero :: "nat option \<Rightarrow> nat" where
  "orZero x = (case x of None \<Rightarrow> 0 | Some n \<Rightarrow> n)"

definition countExtension ::
  "string \<Rightarrow> string \<Rightarrow> (string \<times> nat) list \<Rightarrow> string \<Rightarrow> (string \<times> nat) list"
where
  "countExtension cwd rootDir countByExtension absPath =
     (let relPath = relPathOf cwd rootDir absPath;
          e = toLowerCase (path_extname relPath);
          ext = (if e = [] then ''(none)'' else e)
      in mapSet countByExtension ext (orZero (map_of countByExtension ext) + 1))"

definition degreeStep :: "(string \<times> nat) list \<Rightarrow> string \<times> string \<Rightarrow> (string \<times> nat) list" where
  "degreeStep degreeByNode edge =
     (let m = mapSet degreeByNode (fst edge) (orZero (map_of degreeByNode (fst edge)) + 1)
      in mapSet m (snd edge) (orZero (map_of m (snd edge)) + 1))"

definition degreeByNode :: "graph \<Rightarrow> (string \<times> nat) list" where
  "degreeByNode g = foldl degreeStep (foldl (\<lambda>m id. mapSet m id 0) [] (nodes g)) (edges g)"

text \<open>
  \<^verbatim>\<open>entries.sort((a, b) => b[1] - a[1])\<close>: the sort of an array is stable, and this
  comparison orders by falling degree, so it is the stable sort on the negated degree.
\<close>

definition sortByDegree :: "(string \<times> nat) list \<Rightarrow> (string \<times> nat) list" where
  "sortByDegree entries = sort_key (\<lambda>entry. - int (snd entry)) entries"

record analysis_stats =
  exts :: "(string \<times> nat) list"
  graphNodes :: nat
  graphEdges :: nat
  topDegree :: "(string \<times> nat) list"

definition buildAnalysisStats :: "string \<Rightarrow> string \<Rightarrow> string list \<Rightarrow> graph \<Rightarrow> analysis_stats" where
  "buildAnalysisStats cwd rootDir filePathsAbs g =
     \<lparr>exts = foldl (countExtension cwd rootDir) [] filePathsAbs,
      graphNodes = length (nodes g),
      graphEdges = length (edges g),
      topDegree = take 8 (sortByDegree (degreeByNode g))\<rparr>"

section \<open>The file tree\<close>

text \<open>
  A node of the tree: a file with its name and its path relative to the root, or a folder
  with its name and its children.
\<close>

datatype tree_node =
  FileNode (nodeName: string) (nodePath: string)
| FolderNode (nodeName: string) (children: "tree_node list")

definition isFolder :: "tree_node \<Rightarrow> bool" where
  "isFolder node = (case node of FolderNode n cs \<Rightarrow> True | FileNode n p \<Rightarrow> False)"

text \<open>
  The comparison of the two sorts, \<^verbatim>\<open>a.type === b.type ? a.name.localeCompare(b.name) :
  a.type === "folder" ? -1 : 1\<close>. \<^verbatim>\<open>localeCompare\<close> compares the collation keys of the two
  names; the collation is a parameter, the function \<open>ckey\<close> from a name to its key in a
  linear order. Folders come first, so the comparison is the order of the pairs of kind
  (0 for a folder, 1 for a file) and collation key, and the sort of an array, which is
  stable, is the stable sort on these pairs.
\<close>

definition nodeKey :: "(string \<Rightarrow> 'k) \<Rightarrow> tree_node \<Rightarrow> nat \<times> 'k" where
  "nodeKey ckey node = (if isFolder node then 0 else 1, ckey (nodeName node))"

definition sortChildren :: "(string \<Rightarrow> 'k::linorder) \<Rightarrow> tree_node list \<Rightarrow> tree_node list" where
  "sortChildren ckey cs = sort_key (nodeKey ckey) cs"

text \<open>The test of \<^verbatim>\<open>find\<close> in \<^verbatim>\<open>getOrCreateFolderNode\<close>.\<close>

definition isFolderNamed :: "string \<Rightarrow> tree_node \<Rightarrow> bool" where
  "isFolderNamed folderName child = (isFolder child \<and> nodeName child = folderName)"

text \<open>
  The code walks down with a reference to the current node and changes it in place; here the
  change is made to the first child that passes the test, which is the child \<^verbatim>\<open>find\<close>
  returns.
\<close>

fun updateFirst :: "('a \<Rightarrow> bool) \<Rightarrow> ('a \<Rightarrow> 'a) \<Rightarrow> 'a list \<Rightarrow> 'a list" where
  "updateFirst P f [] = []"
| "updateFirst P f (x # xs) = (if P x then f x # xs else x # updateFirst P f xs)"

text \<open>
  The inner loop of \<^verbatim>\<open>buildFileTreeFromPaths\<close> for one path, from the current node on:
  the last part becomes a file node pushed to the children; every other part is looked up
  among the folders of the current node, and created, pushed and sorted in when it is absent
  (\<^verbatim>\<open>getOrCreateFolderNode\<close>). The current node is always a folder.
\<close>

primrec insertParts ::
  "(string \<Rightarrow> 'k::linorder) \<Rightarrow> string \<Rightarrow> string list \<Rightarrow> tree_node \<Rightarrow> tree_node"
where
  "insertParts ckey relPath [] = (\<lambda>currentNode. currentNode)"
| "insertParts ckey relPath (name # rest) =
     (\<lambda>currentNode.
        case currentNode of
          FileNode n p \<Rightarrow> currentNode
        | FolderNode n cs \<Rightarrow>
            if rest = [] then FolderNode n (cs @ [FileNode name relPath])
            else if \<exists>child\<in>set cs. isFolderNamed name child then
              FolderNode n (updateFirst (isFolderNamed name) (insertParts ckey relPath rest) cs)
            else
              FolderNode n
                (updateFirst (isFolderNamed name) (insertParts ckey relPath rest)
                   (sortChildren ckey (cs @ [FolderNode name []]))))"

text \<open>\<^verbatim>\<open>relPath.split("/").filter(Boolean)\<close>\<close>

definition pathParts :: "string \<Rightarrow> string list" where
  "pathParts relPath = filter (\<lambda>part. part \<noteq> []) (splitSlash relPath)"

lemma set_sortChildren [simp]: "set (sortChildren ckey cs) = set cs"
  by (simp add: sortChildren_def)

fun sortTree :: "(string \<Rightarrow> 'k::linorder) \<Rightarrow> tree_node \<Rightarrow> tree_node" where
  "sortTree ckey (FileNode n p) = FileNode n p"
| "sortTree ckey (FolderNode n cs) = FolderNode n (map (sortTree ckey) (sortChildren ckey cs))"

definition insertFile ::
  "(string \<Rightarrow> 'k::linorder) \<Rightarrow> string \<Rightarrow> string \<Rightarrow> tree_node \<Rightarrow> string \<Rightarrow> tree_node"
where
  "insertFile ckey cwd rootDir root absPath =
     (let relPath = relPathOf cwd rootDir absPath
      in insertParts ckey relPath (pathParts relPath) root)"

definition buildFileTreeFromPaths ::
  "(string \<Rightarrow> 'k::linorder) \<Rightarrow> string \<Rightarrow> string \<Rightarrow> string list \<Rightarrow> tree_node"
where
  "buildFileTreeFromPaths ckey cwd rootDir filePathsAbs =
     sortTree ckey (foldl (insertFile ckey cwd rootDir) (FolderNode ''root'' []) filePathsAbs)"

section \<open>Path normalization keeps parent segments in front\<close>

text \<open>
  A path has a parent-directory segment when one of its pieces between slashes is \<^verbatim>\<open>..\<close>.
\<close>

definition hasParentSegment :: "string \<Rightarrow> bool" where
  "hasParentSegment n = (''..'' \<in> set (splitSlash n))"

lemma splitSlash_nonempty: "splitSlash s \<noteq> []"
  by (induction s) (auto split: list.splits)

lemma splitSlash_no_slash: "seg \<in> set (splitSlash s) \<Longrightarrow> slash \<notin> set seg"
  by (induction s arbitrary: seg) (auto split: list.splits if_splits)

lemma splitSlash_append_no_slash:
  "slash \<notin> set seg \<Longrightarrow> splitSlash (seg @ slash # rest) = seg # splitSlash rest"
  by (induction seg) (auto)

lemma splitSlash_single: "slash \<notin> set seg \<Longrightarrow> splitSlash seg = [seg]"
  by (induction seg) (auto)

lemma splitSlash_joinSlash:
  "segs \<noteq> [] \<Longrightarrow> \<forall>seg\<in>set segs. slash \<notin> set seg \<Longrightarrow> splitSlash (joinSlash segs) = segs"
  by (induction segs rule: joinSlash.induct)
     (auto simp: splitSlash_single splitSlash_append_no_slash)

lemma splitSlash_joinSlash_trailing:
  "segs \<noteq> [] \<Longrightarrow> \<forall>seg\<in>set segs. slash \<notin> set seg \<Longrightarrow>
   splitSlash (joinSlash segs @ [slash]) = segs @ [[]]"
  by (induction segs rule: joinSlash.induct)
     (auto simp: splitSlash_append_no_slash)

lemma splitSlash_joinSlash_trailing':
  "segs \<noteq> [] \<Longrightarrow> \<forall>seg\<in>set segs. slash \<notin> set seg \<Longrightarrow>
   splitSlash (joinSlash segs @ ''/'') = segs @ [[]]"
  using splitSlash_joinSlash_trailing[of segs] by (simp add: slash_def)

definition climbsFirst :: "string list \<Rightarrow> bool" where
  "climbsFirst res = ((\<forall>seg\<in>set res. slash \<notin> set seg) \<and> (''..'' \<in> set res \<longrightarrow> hd res = ''..''))"

lemma normStep_climbsFirst:
  "climbsFirst res \<Longrightarrow> slash \<notin> set seg \<Longrightarrow> climbsFirst (normStep allow res seg)"
  unfolding climbsFirst_def normStep_def
  by (cases res rule: rev_cases) (auto simp: hd_append split: if_splits)

lemma foldl_normStep_climbsFirst:
  "climbsFirst res \<Longrightarrow> \<forall>seg\<in>set segs. slash \<notin> set seg \<Longrightarrow>
   climbsFirst (foldl (normStep allow) res segs)"
  by (induction segs arbitrary: res) (auto simp: normStep_climbsFirst)

lemma normalizeString_climbsFirst: "climbsFirst (normalizeString p allow)"
  unfolding normalizeString_def
  by (rule foldl_normStep_climbsFirst) (auto simp: climbsFirst_def splitSlash_no_slash)

lemma joinSlash_hd: "segs \<noteq> [] \<Longrightarrow> hd segs = s \<Longrightarrow> startsWith s (joinSlash segs)"
  by (induction segs rule: joinSlash.induct) (auto simp: startsWith_def)

lemma startsWith_append: "startsWith s xs \<Longrightarrow> startsWith s (xs @ ys)"
proof -
  assume a: "startsWith s xs"
  then have "length (take (length s) xs) = length s" by (simp add: startsWith_def)
  then have "length s \<le> length xs" by simp
  with a show ?thesis by (simp add: startsWith_def)
qed

lemma normalize_parent_first:
  assumes "hasParentSegment (posix_normalize p)" "\<not> posix_isAbsolute (posix_normalize p)"
  shows "startsWith ''..'' (posix_normalize p)"
proof -
  let ?segs = "normalizeString p (hd p \<noteq> slash)"
  have cf: "climbsFirst ?segs" by (rule normalizeString_climbsFirst)
  then have ns: "\<forall>seg\<in>set ?segs. slash \<notin> set seg" by (simp add: climbsFirst_def)
  show ?thesis
  proof (cases "p = [] \<or> hd p = slash \<or> ?segs = []")
    case True
    with assms show ?thesis
      by (auto simp: posix_normalize_def hasParentSegment_def posix_isAbsolute_def Let_def slash_def
          split: if_splits)
  next
    case False
    then have ne: "?segs \<noteq> []" and rel: "hd p \<noteq> slash" and pne: "p \<noteq> []" by auto
    have "''..'' \<in> set ?segs"
      using assms(1) ne rel pne ns
      by (auto simp: posix_normalize_def hasParentSegment_def Let_def
          splitSlash_joinSlash splitSlash_joinSlash_trailing' split: if_splits)
    with cf have "hd ?segs = ''..''" by (simp add: climbsFirst_def)
    with ne have "startsWith ''..'' (joinSlash ?segs)" by (rule joinSlash_hd)
    then show ?thesis
      using ne rel pne by (auto simp: posix_normalize_def Let_def startsWith_append)
  qed
qed

lemma unsafe_covers:
  "hasParentSegment (posix_normalize p) \<or> posix_isAbsolute (posix_normalize p) \<Longrightarrow>
   unsafeRelPath (posix_normalize p)"
  using normalize_parent_first[of p] by (auto simp: unsafeRelPath_def)

section \<open>The upload handler around the extraction\<close>

definition MAX_EXTRACTED_TOTAL_BYTES :: nat where
  "MAX_EXTRACTED_TOTAL_BYTES = 1500 * 1024 * 1024"

definition MAX_EXTRACTED_FILE_BYTES :: nat where
  "MAX_EXTRACTED_FILE_BYTES = 30 * 1024 * 1024"

definition MAX_EXTRACTED_FILES :: nat where
  "MAX_EXTRACTED_FILES = 15000"

definition serverLimits :: limits where
  "serverLimits =
     \<lparr>maxFiles = MAX_EXTRACTED_FILES, maxFileBytes = MAX_EXTRACTED_FILE_BYTES,
      maxTotalBytes = MAX_EXTRACTED_TOTAL_BYTES\<rparr>"

text \<open>The central error handler: the status and the message of the JSON reply.\<close>

fun errorHandler :: "error \<Rightarrow> nat \<times> string" where
  "errorHandler UNSAFE_ZIP_PATH =
     (400, ''Invalid ZIP: unsafe file path found inside the archive.'')"
| "errorHandler ZIP_LIMITS_EXCEEDED =
     (413, ''ZIP exceeds extraction limits (too many files or extracted size too large).'')"
| "errorHandler OTHER_ERROR = (500, ''Server error'')"

datatype reply = Analysis | Failure nat string

text \<open>
  What one ZIP upload leaves behind: the reply, the files under the extraction directory of
  the job, and the calls of \<^verbatim>\<open>scheduleJobCleanup\<close> (archive path and extraction directory).
  The handler reaches \<^verbatim>\<open>scheduleJobCleanup\<close> only after the extraction and the analysis;
  a throw of \<^verbatim>\<open>safeExtractZip\<close> goes to \<^verbatim>\<open>next(err)\<close> and from there to the error
  handler. The reply of a successful job carries the tree, the graph and the statistics of
  the later sections; here it is the constructor \<^const>\<open>Analysis\<close>.
\<close>

record job_result =
  jobReply :: reply
  filesOnDisk :: "(string \<times> nat) list"
  cleanupCalls :: "(string \<times> string) list"

definition uploadZip :: "string \<Rightarrow> string \<Rightarrow> zip_entry list \<Rightarrow> string \<Rightarrow> job_result" where
  "uploadZip cwd archivePath zipFiles extractionTargetDir =
     (case safeExtractZip cwd zipFiles extractionTargetDir serverLimits of
        (Some err, st) \<Rightarrow>
          \<lparr>jobReply = (case errorHandler err of (status, msg) \<Rightarrow> Failure status msg),
           filesOnDisk = written st, cleanupCalls = []\<rparr>
      | (None, st) \<Rightarrow>
          \<lparr>jobReply = Analysis, filesOnDisk = written st,
           cleanupCalls = [(archivePath, extractionTargetDir)]\<rparr>)"

section \<open>Example archives\<close>

definition fileEntry :: "string \<Rightarrow> nat option \<Rightarrow> stream_event list \<Rightarrow> zip_entry" where
  "fileEntry p sz evs =
     \<lparr>isDirectory = False, entryPath = p, uncompressedSize = sz, stream = evs\<rparr>"

definition smallLimits :: limits where
  "smallLimits = \<lparr>maxFiles = 10, maxFileBytes = 5, maxTotalBytes = 6\<rparr>"

definition jobDir :: string where
  "jobDir = ''/srv/extracted/job''"

section \<open>Properties of the extraction\<close>

text \<open>The count check and the two declared-size checks of an entry, in the state before it.\<close>

definition tripsLimit :: "limits \<Rightarrow> extract_state \<Rightarrow> zip_entry \<Rightarrow> bool" where
  "tripsLimit lim st e =
     (maxFiles lim < extractedFilesCount st + 1
      \<or> maxFileBytes lim < declaredSize e
      \<or> maxTotalBytes lim < extractedTotalBytes st + declaredSize e)"

lemma extractEntries_append:
  "extractEntries cwd lim t st (pre @ post) =
     (case extractEntries cwd lim t st pre of
        (Some err, st') \<Rightarrow> (Some err, st')
      | (None, st') \<Rightarrow> extractEntries cwd lim t st' post)"
  by (induction pre arbitrary: st) (auto split: prod.splits option.splits)

lemma extractEntry_unsafe:
  assumes "\<not> isDirectory e"
    "unsafeRelPath (normalizedRelPath e) \<or>
     \<not> insideTarget cwd t (posix_join t (normalizedRelPath e))"
  shows "fst (extractEntry cwd lim t st e)
           = Some (if tripsLimit lim st e then ZIP_LIMITS_EXCEEDED else UNSAFE_ZIP_PATH)
       \<and> written (snd (extractEntry cwd lim t st e)) = written st"
  using assms by (auto simp: extractEntry_def tripsLimit_def Let_def)

lemma extractEntry_written_inside:
  assumes "\<forall>f\<in>set (written st). insideTarget cwd t (fst f)"
  shows "\<forall>f\<in>set (written (snd (extractEntry cwd lim t st e))). insideTarget cwd t (fst f)"
  using assms by (auto simp: extractEntry_def Let_def split: prod.splits)

lemma extractEntries_written_inside:
  assumes "\<forall>f\<in>set (written st). insideTarget cwd t (fst f)"
  shows "\<forall>f\<in>set (written (snd (extractEntries cwd lim t st es))). insideTarget cwd t (fst f)"
  using assms
proof (induction es arbitrary: st)
  case Nil
  then show ?case by simp
next
  case (Cons e es)
  have inv: "\<forall>f\<in>set (written (snd (extractEntry cwd lim t st e))). insideTarget cwd t (fst f)"
    using Cons.prems by (rule extractEntry_written_inside)
  show ?case
  proof (cases "extractEntry cwd lim t st e")
    case (Pair err st')
    with inv have inv': "\<forall>f\<in>set (written st'). insideTarget cwd t (fst f)" by simp
    show ?thesis
    proof (cases err)
      case None
      with Pair Cons.IH[OF inv'] show ?thesis by simp
    next
      case (Some a)
      with Pair inv' show ?thesis by simp
    qed
  qed
qed

lemma pipeEntry_exceeds:
  "w \<le> lim \<Longrightarrow> lim < w + sum_list chunks \<Longrightarrow>
   fst (pipeEntry lim w (map Data chunks @ rest)) = Some ZIP_LIMITS_EXCEEDED"
  by (induction chunks arbitrary: w) (auto simp: add.assoc)

lemma pipeEntry_bounded: "w \<le> lim \<Longrightarrow> snd (pipeEntry lim w evs) \<le> lim"
  by (induction lim w evs rule: pipeEntry.induct) auto

lemma safeExtractZip_after_prefix:
  assumes "extractEntries cwd lim targetDir (initialState cwd targetDir) pre = (None, st)"
  shows "safeExtractZip cwd (pre @ e # post) targetDir lim =
      (case extractEntry cwd lim targetDir st e of
         (Some err, st') \<Rightarrow> (Some err, st')
       | (None, st') \<Rightarrow> extractEntries cwd lim targetDir st' post)"
  using assms by (simp add: safeExtractZip_def extractEntries_append)

text \<open>
  C1 (as amended). Take an archive whose entries before the file entry \<open>e\<close> extract without
  error. If the normalized path of \<open>e\<close> has a parent-directory segment anywhere or is
  absolute, the extraction fails at \<open>e\<close>: with \<^const>\<open>ZIP_LIMITS_EXCEEDED\<close> when \<open>e\<close> trips
  the count check or a declared-size check, which come first, and with
  \<^const>\<open>UNSAFE_ZIP_PATH\<close> otherwise; no file is opened for \<open>e\<close> or for a later entry. The
  same holds if the resolved destination is neither the resolved target nor below it. And
  for any archive, failed or not, every file the extraction has opened for writing resolves
  to the target or below it.
\<close>

theorem safeExtractZip_rejects_unsafe_path:
  assumes "extractEntries cwd lim targetDir (initialState cwd targetDir) pre = (None, st)"
    and "\<not> isDirectory e"
  shows "(hasParentSegment (normalizedRelPath e) \<or> posix_isAbsolute (normalizedRelPath e)
            \<longrightarrow> fst (safeExtractZip cwd (pre @ e # post) targetDir lim)
                  = Some (if tripsLimit lim st e then ZIP_LIMITS_EXCEEDED else UNSAFE_ZIP_PATH)
                \<and> written (snd (safeExtractZip cwd (pre @ e # post) targetDir lim)) = written st)
       \<and> (\<not> insideTarget cwd targetDir (posix_join targetDir (normalizedRelPath e))
            \<longrightarrow> fst (safeExtractZip cwd (pre @ e # post) targetDir lim)
                  = Some (if tripsLimit lim st e then ZIP_LIMITS_EXCEEDED else UNSAFE_ZIP_PATH)
                \<and> written (snd (safeExtractZip cwd (pre @ e # post) targetDir lim)) = written st)
       \<and> (\<forall>f\<in>set (written (snd (safeExtractZip cwd zipFiles targetDir lim))).
            insideTarget cwd targetDir (fst f))"
proof -
  note run = safeExtractZip_after_prefix[OF assms(1), of e post]
  have fails: "fst (safeExtractZip cwd (pre @ e # post) targetDir lim)
                  = Some (if tripsLimit lim st e then ZIP_LIMITS_EXCEEDED else UNSAFE_ZIP_PATH)
                \<and> written (snd (safeExtractZip cwd (pre @ e # post) targetDir lim)) = written st"
    if "unsafeRelPath (normalizedRelPath e) \<or>
        \<not> insideTarget cwd targetDir (posix_join targetDir (normalizedRelPath e))"
  proof -
    from extractEntry_unsafe[OF assms(2) that, of lim st]
    show ?thesis
      by (cases "extractEntry cwd lim targetDir st e") (auto simp: run)
  qed
  have first: "unsafeRelPath (normalizedRelPath e)"
    if "hasParentSegment (normalizedRelPath e) \<or> posix_isAbsolute (normalizedRelPath e)"
    using that unfolding normalizedRelPath_def by (rule unsafe_covers)
  have inside: "\<forall>f\<in>set (written (snd (safeExtractZip cwd zipFiles targetDir lim))).
      insideTarget cwd targetDir (fst f)"
    unfolding safeExtractZip_def
    by (rule extractEntries_written_inside) (simp add: initialState_def)
  from fails first inside show ?thesis by blast
qed

theorem safeExtractZip_rejects_unsafe_path_witness:
  "hasParentSegment (normalizedRelPath (fileEntry ''docs/../../evil.sh'' None [Data 2]))
   \<and> fst (safeExtractZip ''/srv''
        [fileEntry ''a.txt'' None [Data 5], fileEntry ''docs/../../evil.sh'' None [Data 2],
         fileEntry ''c.txt'' None []] jobDir smallLimits) = Some UNSAFE_ZIP_PATH
   \<and> fst (safeExtractZip ''/srv''
        [fileEntry ''a.txt'' None [Data 5], fileEntry ''docs/../../evil.sh'' (Some 9) [Data 2],
         fileEntry ''c.txt'' None []] jobDir smallLimits) = Some ZIP_LIMITS_EXCEEDED
   \<and> map fst (written (snd (safeExtractZip ''/srv''
        [fileEntry ''a.txt'' None [Data 5], fileEntry ''docs/../../evil.sh'' None [Data 2],
         fileEntry ''c.txt'' None []] jobDir smallLimits))) = [''/srv/extracted/job/a.txt'']
   \<and> insideTarget ''/srv'' jobDir ''/srv/extracted/job/a.txt''"
proof -
  let ?a = "fileEntry ''a.txt'' None [Data 5]"
  let ?evil = "fileEntry ''docs/../../evil.sh'' None [Data 2]"
  let ?big = "fileEntry ''docs/../../evil.sh'' (Some 9) [Data 2]"
  define st where
    "st = snd (extractEntries ''/srv'' smallLimits jobDir (initialState ''/srv'' jobDir) [?a])"
  have "fst (extractEntries ''/srv'' smallLimits jobDir (initialState ''/srv'' jobDir) [?a]) = None"
    by code_simp
  then have pre: "extractEntries ''/srv'' smallLimits jobDir (initialState ''/srv'' jobDir) [?a]
      = (None, st)"
    unfolding st_def by (metis prod.collapse)
  have wr: "written st = [(''/srv/extracted/job/a.txt'', 5)]" unfolding st_def by code_simp
  have h2: "\<not> isDirectory ?evil" "\<not> isDirectory ?big" by code_simp+
  have l1: "\<not> tripsLimit smallLimits st ?evil" unfolding st_def by code_simp
  have l2: "tripsLimit smallLimits st ?big" unfolding st_def by code_simp
  have par: "hasParentSegment (normalizedRelPath ?evil)"
    "hasParentSegment (normalizedRelPath ?big)" by code_simp+
  from safeExtractZip_rejects_unsafe_path
         [OF pre h2(1), where post = "[fileEntry ''c.txt'' None []]"
            and zipFiles = "[?a, ?evil, fileEntry ''c.txt'' None []]"] par(1) l1 wr
  have 1: "fst (safeExtractZip ''/srv'' [?a, ?evil, fileEntry ''c.txt'' None []] jobDir smallLimits)
        = Some UNSAFE_ZIP_PATH"
    and 2: "map fst (written (snd (safeExtractZip ''/srv''
        [?a, ?evil, fileEntry ''c.txt'' None []] jobDir smallLimits)))
        = [''/srv/extracted/job/a.txt'']"
    and ins: "insideTarget ''/srv'' jobDir ''/srv/extracted/job/a.txt''"
    by auto
  from safeExtractZip_rejects_unsafe_path
         [OF pre h2(2), where post = "[fileEntry ''c.txt'' None []]" and zipFiles = "[]"] par(2) l2
  have 3: "fst (safeExtractZip ''/srv'' [?a, ?big, fileEntry ''c.txt'' None []] jobDir smallLimits)
        = Some ZIP_LIMITS_EXCEEDED"
    by auto
  from 1 2 3 par(1) ins show ?thesis by simp
qed

text \<open>
  C1 as stated fails where a limit check throws first: the only entry has a parent-directory
  segment, but its declared size is over the per-file cap, and the extraction ends with
  \<^const>\<open>ZIP_LIMITS_EXCEEDED\<close>.
\<close>

theorem unsafe_path_behind_limit_counterexample:
  "hasParentSegment (normalizedRelPath (fileEntry ''../evil.sh'' (Some 9) []))
   \<and> fst (safeExtractZip ''/srv'' [fileEntry ''../evil.sh'' (Some 9) []] jobDir smallLimits)
       = Some ZIP_LIMITS_EXCEEDED"
  by code_simp

text \<open>
  C2. Required: the bytes written by one extraction never pass \<open>maxTotalBytes\<close>, whatever
  sizes the entries declare. The code does not meet this. The running total of
  \<^verbatim>\<open>safeExtractZip\<close> adds up declared sizes only: two entries without a declared size, five
  streamed bytes each, extract without error under a total cap of six bytes, and ten bytes
  are on disk.
\<close>

theorem total_cap_not_enforced_on_streamed_bytes:
  "fst (safeExtractZip ''/srv''
          [fileEntry ''a.txt'' None [Data 5], fileEntry ''b.txt'' None [Data 2, Data 3]]
          jobDir smallLimits) = None
   \<and> written (snd (safeExtractZip ''/srv''
          [fileEntry ''a.txt'' None [Data 5], fileEntry ''b.txt'' None [Data 2, Data 3]]
          jobDir smallLimits))
       = [(''/srv/extracted/job/a.txt'', 5), (''/srv/extracted/job/b.txt'', 5)]
   \<and> sum_list (map snd (written (snd (safeExtractZip ''/srv''
          [fileEntry ''a.txt'' None [Data 5], fileEntry ''b.txt'' None [Data 2, Data 3]]
          jobDir smallLimits)))) = 10
   \<and> maxTotalBytes smallLimits = 6"
  by code_simp

text \<open>
  C3. Take an archive whose entries before \<open>e\<close> extract without error, and let the file
  entry \<open>e\<close> reach its stream: it passes the count, declared-size and path checks (whatever
  size it declares or omits), the directory of its destination can be made, and its
  destination can be opened. If the chunks the stream delivers add up to more than
  \<open>maxFileBytes\<close>, the extraction fails with \<^const>\<open>ZIP_LIMITS_EXCEEDED\<close>; the file of \<open>e\<close>
  holds no more than \<open>maxFileBytes\<close> bytes, and no later entry is touched.
\<close>

theorem safeExtractZip_streaming_cap:
  assumes "extractEntries cwd lim targetDir (initialState cwd targetDir) pre = (None, st)"
    and "\<not> isDirectory e"
    and "\<not> tripsLimit lim st e"
    and "\<not> unsafeRelPath (normalizedRelPath e)"
    and "insideTarget cwd targetDir (posix_join targetDir (normalizedRelPath e))"
    and "\<not> mkdirBlocked cwd (written st)
            (posix_dirname (posix_join targetDir (normalizedRelPath e)))"
    and "\<not> openFails cwd
            (directories st
               \<union> madeDirectories cwd (posix_dirname (posix_join targetDir (normalizedRelPath e))))
            (posix_join targetDir (normalizedRelPath e))"
    and "stream e = map Data chunks @ rest"
    and "maxFileBytes lim < sum_list chunks"
  shows "fst (safeExtractZip cwd (pre @ e # post) targetDir lim) = Some ZIP_LIMITS_EXCEEDED
       \<and> (\<exists>w. w \<le> maxFileBytes lim
             \<and> written (snd (safeExtractZip cwd (pre @ e # post) targetDir lim))
                 = written st @ [(posix_join targetDir (normalizedRelPath e), w)])"
proof -
  let ?p = "pipeEntry (maxFileBytes lim) 0 (stream e)"
  let ?dest = "posix_join targetDir (normalizedRelPath e)"
  note run = safeExtractZip_after_prefix[OF assms(1), of e post]
  have err: "fst ?p = Some ZIP_LIMITS_EXCEEDED"
    using assms(8,9) pipeEntry_exceeds[of 0 "maxFileBytes lim" chunks rest] by simp
  have bound: "snd ?p \<le> maxFileBytes lim"
    by (rule pipeEntry_bounded) simp
  have "fst (extractEntry cwd lim targetDir st e) = Some ZIP_LIMITS_EXCEEDED
      \<and> written (snd (extractEntry cwd lim targetDir st e)) = written st @ [(?dest, snd ?p)]"
    using assms(2-7) err by (cases ?p) (auto simp: extractEntry_def tripsLimit_def Let_def)
  then show ?thesis
    using bound by (cases "extractEntry cwd lim targetDir st e") (auto simp: run)
qed

theorem safeExtractZip_streaming_cap_witness:
  "fst (safeExtractZip ''/srv''
          [fileEntry ''a.txt'' None [Data 5], fileEntry ''big.bin'' (Some 2) [Data 2, Data 3, Data 4],
           fileEntry ''c.txt'' None [Data 2]] jobDir smallLimits) = Some ZIP_LIMITS_EXCEEDED
   \<and> map fst (written (snd (safeExtractZip ''/srv''
          [fileEntry ''a.txt'' None [Data 5], fileEntry ''big.bin'' (Some 2) [Data 2, Data 3, Data 4],
           fileEntry ''c.txt'' None [Data 2]] jobDir smallLimits)))
       = [''/srv/extracted/job/a.txt'', ''/srv/extracted/job/big.bin'']"
proof -
  let ?a = "fileEntry ''a.txt'' None [Data 5]"
  let ?big = "fileEntry ''big.bin'' (Some 2) [Data 2, Data 3, Data 4]"
  define st where
    "st = snd (extractEntries ''/srv'' smallLimits jobDir (initialState ''/srv'' jobDir) [?a])"
  have "fst (extractEntries ''/srv'' smallLimits jobDir (initialState ''/srv'' jobDir) [?a]) = None"
    by code_simp
  then have pre: "extractEntries ''/srv'' smallLimits jobDir (initialState ''/srv'' jobDir) [?a]
      = (None, st)"
    unfolding st_def by (metis prod.collapse)
  have wr: "written st = [(''/srv/extracted/job/a.txt'', 5)]" unfolding st_def by code_simp
  have h2: "\<not> isDirectory ?big" by code_simp
  have h3: "\<not> tripsLimit smallLimits st ?big" unfolding st_def by code_simp
  have h4: "\<not> unsafeRelPath (normalizedRelPath ?big)" by code_simp
  have h5: "insideTarget ''/srv'' jobDir (posix_join jobDir (normalizedRelPath ?big))"
    by code_simp
  have h6: "\<not> mkdirBlocked ''/srv'' (written st)
            (posix_dirname (posix_join jobDir (normalizedRelPath ?big)))"
    unfolding st_def by code_simp
  have h7: "\<not> openFails ''/srv''
            (directories st
               \<union> madeDirectories ''/srv'' (posix_dirname (posix_join jobDir (normalizedRelPath ?big))))
            (posix_join jobDir (normalizedRelPath ?big))"
    unfolding st_def by code_simp
  have h8: "stream ?big = map Data [2, 3, 4] @ []" by code_simp
  have h9: "maxFileBytes smallLimits < sum_list [2, 3, 4]" by code_simp
  have dest: "posix_join jobDir (normalizedRelPath ?big) = ''/srv/extracted/job/big.bin''"
    by code_simp
  from safeExtractZip_streaming_cap
         [OF pre h2 h3 h4 h5 h6 h7 h8 h9, of "[fileEntry ''c.txt'' None [Data 2]]"]
  show ?thesis by (auto simp: dest wr)
qed

text \<open>
  Where the destination cannot be reached, no byte is streamed to it and the error is the
  one of the file system: an entry below a path that is a file already (the \<^verbatim>\<open>mkdir\<close>
  throws), and an entry whose path normalizes to the target itself (the open fails).
\<close>

lemma destination_unreachable_examples:
  "safeExtractZip ''/srv'' [fileEntry ''a'' None [Data 2], fileEntry ''a/b'' None [Data 9]]
      jobDir smallLimits
   = (Some OTHER_ERROR,
      \<lparr>extractedTotalBytes = 0, extractedFilesCount = 2,
       written = [(''/srv/extracted/job/a'', 2)],
       directories = madeDirectories ''/srv'' jobDir\<rparr>)
   \<and> fst (safeExtractZip ''/srv'' [fileEntry ''x/..'' None [Data 9]] jobDir smallLimits)
       = Some OTHER_ERROR
   \<and> written (snd (safeExtractZip ''/srv'' [fileEntry ''x/..'' None [Data 9]] jobDir smallLimits))
       = []"
  by code_simp

text \<open>
  C4. Required: a failed extraction is followed by the removal of the extraction directory
  before the failure is reported. The code does not meet this. The handler does not remove
  the directory and does not schedule its cleanup either: after an archive with a good entry
  and an unsafe one, the reply is the 400 failure, the file of the good entry is still on
  disk, and \<^verbatim>\<open>scheduleJobCleanup\<close> has not been called.
\<close>

theorem failed_upload_leaves_directory:
  "uploadZip ''/srv'' ''/srv/uploads/1-x.zip''
      [fileEntry ''ok.txt'' (Some 2) [Data 2], fileEntry ''../evil.sh'' (Some 2) [Data 2]] jobDir
   = \<lparr>jobReply = Failure 400 ''Invalid ZIP: unsafe file path found inside the archive.'',
      filesOnDisk = [(''/srv/extracted/job/ok.txt'', 2)],
      cleanupCalls = []\<rparr>"
proof -
  let ?ok = "fileEntry ''ok.txt'' (Some 2) [Data 2]"
  let ?evil = "fileEntry ''../evil.sh'' (Some 2) [Data 2]"
  let ?dest = "''/srv/extracted/job/ok.txt''"
  have ok1: "\<not> unsafeRelPath (normalizedRelPath ?ok)" by code_simp
  have ok2: "posix_join jobDir (normalizedRelPath ?ok) = ?dest" by code_simp
  have ok3: "insideTarget ''/srv'' jobDir ?dest" by code_simp
  have ok4: "\<not> mkdirBlocked ''/srv'' [] (posix_dirname ?dest)" by code_simp
  have ok5: "\<not> openFails ''/srv''
      (madeDirectories ''/srv'' jobDir \<union> madeDirectories ''/srv'' (posix_dirname ?dest)) ?dest"
    by code_simp
  have evil: "unsafeRelPath (normalizedRelPath ?evil)" by code_simp
  have sizes: "declaredSize ?ok = 2" "declaredSize ?evil = 2"
    "\<not> isDirectory ?ok" "\<not> isDirectory ?evil" "stream ?ok = [Data 2]"
    by (simp_all add: fileEntry_def declaredSize_def)
  have run: "fst (safeExtractZip ''/srv'' [?ok, ?evil] jobDir serverLimits) = Some UNSAFE_ZIP_PATH
      \<and> written (snd (safeExtractZip ''/srv'' [?ok, ?evil] jobDir serverLimits)) = [(?dest, 2)]"
    using ok1 ok2 ok3 ok4 ok5 evil sizes
    by (simp add: safeExtractZip_def initialState_def extractEntry_def Let_def serverLimits_def
        MAX_EXTRACTED_FILES_def MAX_EXTRACTED_FILE_BYTES_def MAX_EXTRACTED_TOTAL_BYTES_def)
  then show ?thesis
    by (cases "safeExtractZip ''/srv'' [?ok, ?evil] jobDir serverLimits")
       (simp add: uploadZip_def)
qed

section \<open>Properties of the import graph\<close>

text \<open>A specifier between double quotes, as it stands in a source file.\<close>

definition quoted :: "string \<Rightarrow> string" where
  "quoted s = dquote # s @ [dquote]"

text \<open>
  The probe order in the words of the specification: the path itself, the path with each of
  the four extensions appended, the path as a directory with an index file of each extension.
\<close>

definition sourceExtensions :: "string list" where
  "sourceExtensions = [''.js'', ''.jsx'', ''.ts'', ''.tsx'']"

definition probeOrder :: "string \<Rightarrow> string list" where
  "probeOrder base =
     [base] @ map (\<lambda>ext. base @ ext) sourceExtensions
       @ map (\<lambda>ext. posix_join base (''index'' @ ext)) sourceExtensions"






lemma addEdge_sources:
  "e \<in> set (fst (addEdge f S st spec)) \<Longrightarrow> e \<in> set (fst st) \<or> fst e = f"
  by (auto simp: addEdge_def split: option.splits if_splits)

lemma foldl_addEdge_sources:
  "e \<in> set (fst (foldl (addEdge f S) st specs)) \<Longrightarrow> e \<in> set (fst st) \<or> fst e = f"
proof (induction specs arbitrary: st)
  case Nil
  then show ?case by simp
next
  case (Cons spec specs)
  then have "e \<in> set (fst (addEdge f S st spec)) \<or> fst e = f" by simp
  then show ?case using addEdge_sources by blast
qed

lemma scanFile_sources:
  "e \<in> set (fst (scanFile readFile S st fl)) \<Longrightarrow>
   e \<in> set (fst st) \<or> (fst e = snd fl \<and> readFile (fst fl) \<noteq> None)"
  unfolding scanFile_def
  by (cases "readFile (fst fl)") (auto dest: foldl_addEdge_sources)

lemma foldl_scanFile_sources:
  "e \<in> set (fst (foldl (scanFile readFile S) st fls)) \<Longrightarrow>
   e \<in> set (fst st) \<or> (\<exists>fl\<in>set fls. fst e = snd fl \<and> readFile (fst fl) \<noteq> None)"
proof (induction fls arbitrary: st)
  case Nil
  then show ?case by simp
next
  case (Cons fl fls)
  then have "e \<in> set (fst (scanFile readFile S st fl))
      \<or> (\<exists>fl\<in>set fls. fst e = snd fl \<and> readFile (fst fl) \<noteq> None)"
    by simp
  then show ?case using scanFile_sources by fastforce
qed

text \<open>
  C5. The candidates of a specifier are the path itself, the path with \<^verbatim>\<open>.js\<close>,
  \<^verbatim>\<open>.jsx\<close>, \<^verbatim>\<open>.ts\<close>, \<^verbatim>\<open>.tsx\<close> appended, and the index files of these extensions
  under the path, in this order; the result of the resolution is the first candidate in the
  set of analyzed files; when no candidate is in the set the result is nothing and the
  specifier leaves edges and key set as they are. For \<^verbatim>\<open>a/b.js\<close> with
  \<^verbatim>\<open>import "./c"\<close> and \<^verbatim>\<open>a/c.js\<close> the graph has the one edge from \<^verbatim>\<open>a/b.js\<close> to
  \<^verbatim>\<open>a/c.js\<close>; with \<^verbatim>\<open>import "./x"\<close> it has no edge.
\<close>

theorem resolve_probes_in_order:
  "importCandidates f s = probeOrder (importBase f s)
   \<and> (resolveImportToRelativeFile f s S = Some t \<longleftrightarrow>
        (\<exists>i<length (importCandidates f s).
            importCandidates f s ! i = t \<and> t \<in> S
            \<and> (\<forall>j<i. importCandidates f s ! j \<notin> S)))
   \<and> ((\<forall>c\<in>set (importCandidates f s). c \<notin> S) \<longrightarrow>
        resolveImportToRelativeFile f s S = None \<and> addEdge f S st s = st)
   \<and> buildLocalImportsGraph ''/srv'' (map_of [(''/job/a/b.js'', ''import '' @ quoted ''./c'')])
        ''/job'' [''/job/a/b.js'', ''/job/a/c.js'']
       = \<lparr>nodes = [''a/b.js'', ''a/c.js''], edges = [(''a/b.js'', ''a/c.js'')]\<rparr>
   \<and> buildLocalImportsGraph ''/srv'' (map_of [(''/job/a/b.js'', ''import '' @ quoted ''./x'')])
        ''/job'' [''/job/a/b.js'', ''/job/a/c.js'']
       = \<lparr>nodes = [''a/b.js'', ''a/c.js''], edges = []\<rparr>"
proof -
  have 1: "importCandidates f s = probeOrder (importBase f s)"
    by (simp add: importCandidates_def probeOrder_def sourceExtensions_def Let_def)
  have 2: "resolveImportToRelativeFile f s S = Some t \<longleftrightarrow>
        (\<exists>i<length (importCandidates f s).
            importCandidates f s ! i = t \<and> t \<in> S
            \<and> (\<forall>j<i. importCandidates f s ! j \<notin> S))"
    unfolding resolveImportToRelativeFile_def find_Some_iff by auto
  have 3: "resolveImportToRelativeFile f s S = None \<and> addEdge f S st s = st"
    if "\<forall>c\<in>set (importCandidates f s). c \<notin> S"
  proof -
    from that have "resolveImportToRelativeFile f s S = None"
      by (simp add: resolveImportToRelativeFile_def find_None_iff)
    then show ?thesis by (simp add: addEdge_def)
  qed
  have 4: "buildLocalImportsGraph ''/srv'' (map_of [(''/job/a/b.js'', ''import '' @ quoted ''./c'')])
        ''/job'' [''/job/a/b.js'', ''/job/a/c.js'']
       = \<lparr>nodes = [''a/b.js'', ''a/c.js''], edges = [(''a/b.js'', ''a/c.js'')]\<rparr>"
    by code_simp
  have 5: "buildLocalImportsGraph ''/srv'' (map_of [(''/job/a/b.js'', ''import '' @ quoted ''./x'')])
        ''/job'' [''/job/a/b.js'', ''/job/a/c.js'']
       = \<lparr>nodes = [''a/b.js'', ''a/c.js''], edges = []\<rparr>"
    by code_simp
  from 1 2 3 4 5 show ?thesis by blast
qed

theorem resolve_probes_in_order_witness:
  "resolveImportToRelativeFile ''a/b.js'' ''./c'' {''a/c.ts'', ''a/c/index.js'', ''a/c.jsx''}
     = Some ''a/c.jsx''
   \<and> resolveImportToRelativeFile ''a/b.js'' ''./x'' {''a/b.js'', ''a/c.js''} = None"
proof -
  have h: "\<forall>c\<in>set (importCandidates ''a/b.js'' ''./x''). c \<notin> {''a/b.js'', ''a/c.js''}"
    by code_simp
  let ?S = "{''a/c.ts'', ''a/c/index.js'', ''a/c.jsx''}"
  have i0: "importCandidates ''a/b.js'' ''./c'' ! 0 \<notin> ?S" by code_simp
  have i1: "importCandidates ''a/b.js'' ''./c'' ! 1 \<notin> ?S" by code_simp
  have i2: "(2::nat) < length (importCandidates ''a/b.js'' ''./c'')
      \<and> importCandidates ''a/b.js'' ''./c'' ! 2 = ''a/c.jsx'' \<and> ''a/c.jsx'' \<in> ?S"
    by code_simp
  have "\<forall>j<2. importCandidates ''a/b.js'' ''./c'' ! j \<notin> ?S"
    using i0 i1 by (auto simp: less_Suc_eq numeral_2_eq_2)
  with i2 have i: "\<exists>i<length (importCandidates ''a/b.js'' ''./c'').
      importCandidates ''a/b.js'' ''./c'' ! i = ''a/c.jsx'' \<and> ''a/c.jsx'' \<in> ?S
      \<and> (\<forall>j<i. importCandidates ''a/b.js'' ''./c'' ! j \<notin> ?S)"
    by blast
  from resolve_probes_in_order
         [of "''a/b.js''" "''./x''" "{''a/b.js'', ''a/c.js''}" "''a/c.js''" "([], {})"] h
  have n: "resolveImportToRelativeFile ''a/b.js'' ''./x'' {''a/b.js'', ''a/c.js''} = None"
    by blast
  from resolve_probes_in_order
         [of "''a/b.js''" "''./c''" "{''a/c.ts'', ''a/c/index.js'', ''a/c.jsx''}" "''a/c.jsx''"
            "([], {})"] i
  have "resolveImportToRelativeFile ''a/b.js'' ''./c'' {''a/c.ts'', ''a/c/index.js'', ''a/c.jsx''}
     = Some ''a/c.jsx''"
    by blast
  with n show ?thesis by simp
qed


text \<open>
  C9. Every code file is a node of the graph, readable or not; and a relative path all of
  whose files cannot be read is the source of no edge. The graph is built all the same: a
  failed read is no error of \<^const>\<open>buildLocalImportsGraph\<close>.
\<close>

theorem unreadable_file_is_node_without_edges:
  "(p \<in> set (codeFiles filePathsAbs) \<longrightarrow>
      relPathOf cwd rootDir p
        \<in> set (nodes (buildLocalImportsGraph cwd readFile rootDir filePathsAbs)))
   \<and> ((\<forall>p\<in>set (codeFiles filePathsAbs). relPathOf cwd rootDir p = r \<longrightarrow> readFile p = None) \<longrightarrow>
      (\<forall>e\<in>set (edges (buildLocalImportsGraph cwd readFile rootDir filePathsAbs)). fst e \<noteq> r))"
proof -
  let ?files = "zip (codeFiles filePathsAbs) (map (relPathOf cwd rootDir) (codeFiles filePathsAbs))"
  have files: "fl \<in> set ?files \<Longrightarrow>
      fst fl \<in> set (codeFiles filePathsAbs) \<and> snd fl = relPathOf cwd rootDir (fst fl)" for fl
    by (auto simp: zip_map2 zip_same)
  have 1: "p \<in> set (codeFiles filePathsAbs) \<longrightarrow>
      relPathOf cwd rootDir p
        \<in> set (nodes (buildLocalImportsGraph cwd readFile rootDir filePathsAbs))"
    by (simp add: buildLocalImportsGraph_def Let_def)
  have 2: "\<forall>e\<in>set (edges (buildLocalImportsGraph cwd readFile rootDir filePathsAbs)). fst e \<noteq> r"
    if a: "\<forall>p\<in>set (codeFiles filePathsAbs). relPathOf cwd rootDir p = r \<longrightarrow> readFile p = None"
  proof -
    have "fst e \<noteq> r" if "e \<in> set (fst (foldl (scanFile readFile S) ([], {}) ?files))" for S e
    proof -
      from foldl_scanFile_sources[OF that]
      obtain fl where "fl \<in> set ?files" "fst e = snd fl" "readFile (fst fl) \<noteq> None" by auto
      with files[of fl] a show ?thesis by auto
    qed
    then show ?thesis by (simp add: buildLocalImportsGraph_def Let_def)
  qed
  from 1 2 show ?thesis by blast
qed

theorem unreadable_file_is_node_without_edges_witness:
  "''a/b.js'' \<in> set (nodes (buildLocalImportsGraph ''/srv''
        (map_of [(''/job/a/c.js'', ''import '' @ quoted ''./b'')]) ''/job''
        [''/job/a/b.js'', ''/job/a/c.js'']))
   \<and> (''a/b.js'', ''a/c.js'') \<notin> set (edges (buildLocalImportsGraph ''/srv''
        (map_of [(''/job/a/c.js'', ''import '' @ quoted ''./b'')]) ''/job''
        [''/job/a/b.js'', ''/job/a/c.js'']))
   \<and> (''a/c.js'', ''a/b.js'') \<in> set (edges (buildLocalImportsGraph ''/srv''
        (map_of [(''/job/a/c.js'', ''import '' @ quoted ''./b'')]) ''/job''
        [''/job/a/b.js'', ''/job/a/c.js'']))"
proof -
  let ?read = "map_of [(''/job/a/c.js'', ''import '' @ quoted ''./b'')]"
  let ?paths = "[''/job/a/b.js'', ''/job/a/c.js'']"
  have h1: "''/job/a/b.js'' \<in> set (codeFiles ?paths)" by code_simp
  have h2: "\<forall>p\<in>set (codeFiles ?paths).
      relPathOf ''/srv'' ''/job'' p = ''a/b.js'' \<longrightarrow> ?read p = None"
    by code_simp
  have rel: "relPathOf ''/srv'' ''/job'' ''/job/a/b.js'' = ''a/b.js''" by code_simp
  have other: "(''a/c.js'', ''a/b.js'') \<in> set (edges (buildLocalImportsGraph ''/srv''
        ?read ''/job'' ?paths))"
    by code_simp
  from unreadable_file_is_node_without_edges
         [of "''/job/a/b.js''" ?paths "''/srv''" "''/job''" ?read "''a/b.js''"] h1 h2 rel other
  show ?thesis by auto
qed

text \<open>
  C10. A resolution result is a candidate that is itself in the set of analyzed files; when
  the files of the set agree with the candidates at most up to the case of letters, never
  exactly, the specifier resolves to nothing and leaves edges and key set as they are.
\<close>

theorem resolve_is_case_sensitive:
  "(resolveImportToRelativeFile f s S = Some t \<longrightarrow> t \<in> S \<and> t \<in> set (importCandidates f s))
   \<and> ((\<forall>x\<in>S. \<forall>c\<in>set (importCandidates f s). toLowerCase x = toLowerCase c \<longrightarrow> x \<noteq> c) \<longrightarrow>
        resolveImportToRelativeFile f s S = None \<and> addEdge f S st s = st)"
proof -
  have 1: "t \<in> S \<and> t \<in> set (importCandidates f s)"
    if "resolveImportToRelativeFile f s S = Some t"
    using that unfolding resolveImportToRelativeFile_def find_Some_iff by auto
  have 2: "resolveImportToRelativeFile f s S = None \<and> addEdge f S st s = st"
    if a: "\<forall>x\<in>S. \<forall>c\<in>set (importCandidates f s). toLowerCase x = toLowerCase c \<longrightarrow> x \<noteq> c"
  proof -
    from a have "\<forall>c\<in>set (importCandidates f s). c \<notin> S" by blast
    then have "resolveImportToRelativeFile f s S = None"
      by (simp add: resolveImportToRelativeFile_def find_None_iff)
    then show ?thesis by (simp add: addEdge_def)
  qed
  from 1 2 show ?thesis by blast
qed

theorem resolve_is_case_sensitive_witness:
  "toLowerCase ''a/C.js'' = toLowerCase ''a/c.js''
   \<and> ''a/c.js'' \<in> set (importCandidates ''a/b.js'' ''./c'')
   \<and> resolveImportToRelativeFile ''a/b.js'' ''./c'' {''a/b.js'', ''a/C.js''} = None
   \<and> edges (buildLocalImportsGraph ''/srv''
        (map_of [(''/job/a/b.js'', ''import '' @ quoted ''./c'')]) ''/job''
        [''/job/a/b.js'', ''/job/a/C.js'']) = []"
proof -
  have h: "\<forall>x\<in>{''a/b.js'', ''a/C.js''}. \<forall>c\<in>set (importCandidates ''a/b.js'' ''./c'').
      toLowerCase x = toLowerCase c \<longrightarrow> x \<noteq> c"
    by code_simp
  have a: "toLowerCase ''a/C.js'' = toLowerCase ''a/c.js''" by code_simp
  have b: "''a/c.js'' \<in> set (importCandidates ''a/b.js'' ''./c'')" by code_simp
  have c: "edges (buildLocalImportsGraph ''/srv''
        (map_of [(''/job/a/b.js'', ''import '' @ quoted ''./c'')]) ''/job''
        [''/job/a/b.js'', ''/job/a/C.js'']) = []"
    by code_simp
  from resolve_is_case_sensitive
         [of "''a/b.js''" "''./c''" "{''a/b.js'', ''a/C.js''}" "''a/c.js''" "([], {})"] h a b c
  show ?thesis by blast
qed

section \<open>Properties of the statistics\<close>

text \<open>
  The degree of a node in the words of the specification: the number of edges that end in it
  plus the number of edges that start from it. \<open>firstSeen\<close> keeps the first occurrence of
  every element of a list, in order; \<open>tabulate\<close> lists a function over given keys.
\<close>

definition degreeOf :: "graph \<Rightarrow> string \<Rightarrow> nat" where
  "degreeOf g i =
     length (filter (\<lambda>e. snd e = i) (edges g)) + length (filter (\<lambda>e. fst e = i) (edges g))"

definition endpoints :: "(string \<times> string) list \<Rightarrow> string list" where
  "endpoints es = concat (map (\<lambda>e. [fst e, snd e]) es)"

definition firstSeen :: "string list \<Rightarrow> string list" where
  "firstSeen xs = foldl setAdd [] xs"

definition tabulate :: "(string \<Rightarrow> nat) \<Rightarrow> string list \<Rightarrow> (string \<times> nat) list" where
  "tabulate cnt ks = map (\<lambda>i. (i, cnt i)) ks"

definition exampleGraph :: graph where
  "exampleGraph = \<lparr>nodes = [''A'', ''B'', ''C''],
                    edges = [(''A'', ''B''), (''B'', ''C''), (''A'', ''C'')]\<rparr>"

lemma distinct_setAdd: "distinct ks \<Longrightarrow> distinct (setAdd ks k)"
  by (simp add: setAdd_def)

lemma distinct_foldl_setAdd: "distinct ks \<Longrightarrow> distinct (foldl setAdd ks xs)"
  by (induction xs arbitrary: ks) (simp_all add: distinct_setAdd)

lemma set_setAdd: "set (setAdd ks k) = insert k (set ks)"
  by (auto simp: setAdd_def)

lemma set_foldl_setAdd: "set (foldl setAdd ks xs) = set ks \<union> set xs"
  by (induction xs arbitrary: ks) (auto simp: set_setAdd)

lemma map_of_tabulate: "map_of (tabulate cnt ks) k = (if k \<in> set ks then Some (cnt k) else None)"
  by (induction ks) (auto simp: tabulate_def)

lemma mapSet_tabulate:
  "mapSet (tabulate cnt ks) k v = tabulate (cnt(k := v)) (setAdd ks k)" if "distinct ks"
  using that by (induction ks) (auto simp: tabulate_def setAdd_def)

lemma orZero_tabulate:
  "\<forall>i. i \<notin> set ks \<longrightarrow> cnt i = 0 \<Longrightarrow> orZero (map_of (tabulate cnt ks) k) = cnt k"
  by (simp add: map_of_tabulate orZero_def)

lemma degreeStep_tabulate:
  assumes "distinct ks" "\<forall>i. i \<notin> set ks \<longrightarrow> cnt i = 0"
  shows "degreeStep (tabulate cnt ks) e =
    tabulate (\<lambda>i. cnt i + (if i = fst e then 1 else 0) + (if i = snd e then 1 else 0))
      (setAdd (setAdd ks (fst e)) (snd e))"
proof -
  let ?c1 = "cnt(fst e := cnt (fst e) + 1)"
  let ?k1 = "setAdd ks (fst e)"
  have 1: "mapSet (tabulate cnt ks) (fst e) (orZero (map_of (tabulate cnt ks) (fst e)) + 1)
      = tabulate ?c1 ?k1"
    using assms by (simp add: mapSet_tabulate orZero_tabulate)
  have d1: "distinct ?k1" using assms(1) by (rule distinct_setAdd)
  have z1: "\<forall>i. i \<notin> set ?k1 \<longrightarrow> ?c1 i = 0" using assms(2) by (auto simp: set_setAdd)
  have 2: "mapSet (tabulate ?c1 ?k1) (snd e) (orZero (map_of (tabulate ?c1 ?k1) (snd e)) + 1)
      = tabulate (?c1(snd e := ?c1 (snd e) + 1)) (setAdd ?k1 (snd e))"
    using d1 z1 by (simp add: mapSet_tabulate orZero_tabulate)
  have 3: "?c1(snd e := ?c1 (snd e) + 1)
      = (\<lambda>i. cnt i + (if i = fst e then 1 else 0) + (if i = snd e then 1 else 0))"
    by (rule ext) auto
  show ?thesis unfolding degreeStep_def Let_def 1 2 3 ..
qed

lemma foldl_degreeStep_tabulate:
  assumes "distinct ks" "\<forall>i. i \<notin> set ks \<longrightarrow> cnt i = 0"
  shows "foldl degreeStep (tabulate cnt ks) es =
    tabulate (\<lambda>i. cnt i + length (filter (\<lambda>e. snd e = i) es) + length (filter (\<lambda>e. fst e = i) es))
      (foldl setAdd ks (endpoints es))"
  using assms
proof (induction es arbitrary: ks cnt)
  case Nil
  then show ?case by (simp add: endpoints_def)
next
  case (Cons e es)
  let ?c = "\<lambda>i. cnt i + (if i = fst e then 1 else 0) + (if i = snd e then 1 else 0)"
  let ?k = "setAdd (setAdd ks (fst e)) (snd e)"
  have d: "distinct ?k" using Cons.prems(1) by (simp add: distinct_setAdd)
  have z: "\<forall>i. i \<notin> set ?k \<longrightarrow> ?c i = 0" using Cons.prems(2) by (auto simp: set_setAdd)
  have "foldl degreeStep (tabulate cnt ks) (e # es) = foldl degreeStep (tabulate ?c ?k) es"
    using Cons.prems by (simp add: degreeStep_tabulate)
  also have "\<dots> = tabulate
      (\<lambda>i. ?c i + length (filter (\<lambda>e. snd e = i) es) + length (filter (\<lambda>e. fst e = i) es))
      (foldl setAdd ?k (endpoints es))"
    using d z by (rule Cons.IH)
  also have "(\<lambda>i. ?c i + length (filter (\<lambda>e. snd e = i) es) + length (filter (\<lambda>e. fst e = i) es))
      = (\<lambda>i. cnt i + length (filter (\<lambda>e. snd e = i) (e # es))
              + length (filter (\<lambda>e. fst e = i) (e # es)))"
    by (rule ext) auto
  also have "foldl setAdd ?k (endpoints es) = foldl setAdd ks (endpoints (e # es))"
    by (simp add: endpoints_def)
  finally show ?case .
qed

lemma foldl_init_tabulate:
  "distinct ks \<Longrightarrow>
   foldl (\<lambda>m id. mapSet m id 0) (tabulate (\<lambda>_. 0) ks) ns = tabulate (\<lambda>_. 0) (foldl setAdd ks ns)"
proof (induction ns arbitrary: ks)
  case Nil
  then show ?case by simp
next
  case (Cons n ns)
  have "(\<lambda>_. 0::nat)(n := 0) = (\<lambda>_. 0)" by (rule ext) simp
  then have "mapSet (tabulate (\<lambda>_. 0) ks) n 0 = tabulate (\<lambda>_. 0) (setAdd ks n)"
    using Cons.prems by (simp add: mapSet_tabulate)
  then show ?case using Cons.IH[of "setAdd ks n"] Cons.prems by (simp add: distinct_setAdd)
qed

lemma degreeByNode_tabulate:
  "degreeByNode g = tabulate (degreeOf g) (firstSeen (nodes g @ endpoints (edges g)))"
proof -
  have "foldl (\<lambda>m id. mapSet m id 0) [] (nodes g) = tabulate (\<lambda>_. 0) (firstSeen (nodes g))"
    using foldl_init_tabulate[of "[]" "nodes g"] by (simp add: tabulate_def firstSeen_def)
  moreover have "distinct (firstSeen (nodes g))"
    by (simp add: firstSeen_def distinct_foldl_setAdd)
  ultimately show ?thesis
    by (simp add: degreeByNode_def foldl_degreeStep_tabulate degreeOf_def[abs_def] firstSeen_def)
qed

lemma sorted_negated_falls:
  "sorted (map (\<lambda>entry. - int (snd entry)) entries) \<Longrightarrow> sorted (rev (map snd entries))"
  by (induction entries) (auto simp: sorted_append)

lemma firstSeen_closed:
  "set ys \<subseteq> set xs \<Longrightarrow> foldl setAdd xs ys = xs"
  by (induction ys) (auto simp: setAdd_def)

text \<open>
  C8. The entries of \<^verbatim>\<open>degreeByNode\<close> are the nodes in first-seen order (followed by
  edge ends that are not nodes, if any), each with its incoming plus its outgoing edge count.
  \<^verbatim>\<open>topDegree\<close> is the first eight of these entries after sorting by falling degree;
  entries of equal degree keep their first-seen order. For the nodes A, B, C with edges
  from A to B, from B to C and from A to C the list is A, B, C, each with degree 2.
\<close>

theorem topDegree_ranks_by_degree:
  "degreeByNode g = tabulate (degreeOf g) (firstSeen (nodes g @ endpoints (edges g)))
   \<and> (set (endpoints (edges g)) \<subseteq> set (nodes g) \<longrightarrow>
        map fst (degreeByNode g) = firstSeen (nodes g))
   \<and> topDegree (buildAnalysisStats cwd rootDir filePathsAbs g)
       = take 8 (sortByDegree (degreeByNode g))
   \<and> sorted (rev (map snd (sortByDegree (degreeByNode g))))
   \<and> (\<forall>d. filter (\<lambda>entry. snd entry = d) (sortByDegree (degreeByNode g))
           = filter (\<lambda>entry. snd entry = d) (degreeByNode g))
   \<and> length (topDegree (buildAnalysisStats cwd rootDir filePathsAbs g)) \<le> 8
   \<and> topDegree (buildAnalysisStats cwd rootDir filePathsAbs exampleGraph)
       = [(''A'', 2), (''B'', 2), (''C'', 2)]"
proof -
  have 1: "degreeByNode g = tabulate (degreeOf g) (firstSeen (nodes g @ endpoints (edges g)))"
    by (rule degreeByNode_tabulate)
  have 2: "map fst (degreeByNode g) = firstSeen (nodes g)"
    if "set (endpoints (edges g)) \<subseteq> set (nodes g)"
  proof -
    have "set (endpoints (edges g)) \<subseteq> set (firstSeen (nodes g))"
      using that by (simp add: firstSeen_def set_foldl_setAdd)
    then have "firstSeen (nodes g @ endpoints (edges g)) = firstSeen (nodes g)"
      by (simp add: firstSeen_def firstSeen_closed)
    then show ?thesis by (simp add: 1 tabulate_def comp_def)
  qed
  have 3: "topDegree (buildAnalysisStats cwd rootDir filePathsAbs g)
       = take 8 (sortByDegree (degreeByNode g))"
    by (simp add: buildAnalysisStats_def)
  have "sorted (map (\<lambda>entry. - int (snd entry)) (sortByDegree (degreeByNode g)))"
    by (simp add: sortByDegree_def)
  then have 4: "sorted (rev (map snd (sortByDegree (degreeByNode g))))"
    by (rule sorted_negated_falls)
  have 5: "filter (\<lambda>entry. snd entry = d) (sortByDegree (degreeByNode g))
           = filter (\<lambda>entry. snd entry = d) (degreeByNode g)" for d
  proof -
    have "filter (\<lambda>entry. - int (snd entry) = - int d)
            (sort_key (\<lambda>entry. - int (snd entry)) (degreeByNode g))
        = filter (\<lambda>entry. - int (snd entry) = - int d) (degreeByNode g)"
      by (rule sort_key_stable)
    then show ?thesis by (simp add: sortByDegree_def)
  qed
  have 6: "length (topDegree (buildAnalysisStats cwd rootDir filePathsAbs g)) \<le> 8"
    by (simp add: 3)
  have 7: "topDegree (buildAnalysisStats cwd rootDir filePathsAbs exampleGraph)
       = [(''A'', 2), (''B'', 2), (''C'', 2)]"
    by (simp add: buildAnalysisStats_def exampleGraph_def degreeByNode_def degreeStep_def
        orZero_def sortByDegree_def)
  from 1 2 3 4 5 6 7 show ?thesis by blast
qed

theorem topDegree_ranks_by_degree_witness:
  "map fst (degreeByNode exampleGraph) = [''A'', ''B'', ''C'']
   \<and> map (degreeOf exampleGraph) [''A'', ''B'', ''C''] = [2, 2, 2]"
proof -
  have h: "set (endpoints (edges exampleGraph)) \<subseteq> set (nodes exampleGraph)"
    by (simp add: endpoints_def exampleGraph_def)
  have f: "firstSeen (nodes exampleGraph) = [''A'', ''B'', ''C'']"
    by (simp add: firstSeen_def exampleGraph_def setAdd_def)
  have d: "map (degreeOf exampleGraph) [''A'', ''B'', ''C''] = [2, 2, 2]"
    by (simp add: degreeOf_def exampleGraph_def)
  from topDegree_ranks_by_degree[of exampleGraph "''/srv''" "''/job''" "[]"] h
  have "map fst (degreeByNode exampleGraph) = firstSeen (nodes exampleGraph)" by blast
  with f d show ?thesis by simp
qed

section \<open>Properties of the file tree\<close>

text \<open>
  What a tree holds, whatever the order of its children: \<open>flat\<close> is the multiset of its
  files, each with the names on the way to it (the name of the node first) and with its
  path; \<open>tag\<close> is the kind and the name of a node. In a \<open>wellFormed\<close> tree no two folders
  among the children of a folder have the same name, and every folder below the top has a
  file in it. \<open>sortedTree\<close> says that the children of every folder are in the order of the
  comparison; \<open>partsOf\<close> are the parts of a path of the input. Two collations serve as
  examples: \<open>codeUnitKey\<close> compares names code unit by code unit, \<open>controlBlindKey\<close> does
  the same after dropping the control characters below U+0020, which the default Unicode
  collation ignores. \<open>keysApart\<close> says of a set of part lists that the collation tells apart
  the names that meet in one folder: where two of the lists first differ, and the two parts
  there are of one kind (both the last part, a file, or both not, a folder), the keys of the
  two parts differ. \<open>pathsAgree\<close> says of a set of files, each given by its parts and its
  path, that files with the same parts have the same path.
\<close>

fun flat :: "tree_node \<Rightarrow> (string list \<times> string) multiset" where
  "flat (FileNode n p) = {#([n], p)#}"
| "flat (FolderNode n cs) = (\<Sum>c\<leftarrow>cs. image_mset (\<lambda>e. (n # fst e, snd e)) (flat c))"

definition tag :: "tree_node \<Rightarrow> bool \<times> string" where
  "tag node = (isFolder node, nodeName node)"

fun wellFormed :: "tree_node \<Rightarrow> bool" where
  "wellFormed (FileNode n p) = True"
| "wellFormed (FolderNode n cs) =
     (distinct (map nodeName (filter isFolder cs))
      \<and> (\<forall>c\<in>set cs. wellFormed c \<and> (isFolder c \<longrightarrow> flat c \<noteq> {#})))"

fun sortedTree :: "(string \<Rightarrow> 'k::linorder) \<Rightarrow> tree_node \<Rightarrow> bool" where
  "sortedTree ckey (FileNode n p) = True"
| "sortedTree ckey (FolderNode n cs) =
     (sorted (map (nodeKey ckey) cs) \<and> (\<forall>c\<in>set cs. sortedTree ckey c))"

definition partsOf :: "string \<Rightarrow> string \<Rightarrow> string \<Rightarrow> string list" where
  "partsOf cwd rootDir absPath = pathParts (relPathOf cwd rootDir absPath)"

definition codeUnitKey :: "string \<Rightarrow> nat list" where
  "codeUnitKey name = map of_char name"

definition controlBlindKey :: "string \<Rightarrow> nat list" where
  "controlBlindKey name = map of_char (filter (\<lambda>c. 32 \<le> (of_char c :: nat)) name)"

definition keysApart :: "(string \<Rightarrow> 'k) \<Rightarrow> string list set \<Rightarrow> bool" where
  "keysApart ckey S =
     (\<forall>P\<in>S. \<forall>Q\<in>S.
        case dropCommon P Q of
          (x # xs, y # ys) \<Rightarrow> ((xs = []) = (ys = []) \<longrightarrow> ckey x \<noteq> ckey y)
        | _ \<Rightarrow> True)"

definition pathsAgree :: "(string list \<times> string) set \<Rightarrow> bool" where
  "pathsAgree E = (\<forall>e\<in>E. \<forall>e'\<in>E. fst e = fst e' \<longrightarrow> snd e = snd e')"

lemma in_sum_list_mset: "x \<in># sum_list ms \<longleftrightarrow> (\<exists>m\<in>set ms. x \<in># m)"
  by (induction ms) auto

lemma in_flat_folder:
  "e \<in># flat (FolderNode n cs) \<longleftrightarrow> (\<exists>c\<in>set cs. \<exists>e'\<in>#flat c. e = (n # fst e', snd e'))"
  by (auto simp: in_sum_list_mset)

lemma flat_shape:
  "e \<in># flat c \<Longrightarrow> fst e \<noteq> [] \<and> hd (fst e) = nodeName c
     \<and> (if isFolder c then 2 \<le> length (fst e) else fst e = [nodeName c])"
proof (induction c arbitrary: e)
  case (FileNode n p)
  then show ?case by (simp add: isFolder_def)
next
  case (FolderNode n cs)
  then obtain c e' where c: "c \<in> set cs" and e': "e' \<in># flat c" and e: "e = (n # fst e', snd e')"
    unfolding in_flat_folder by blast
  from FolderNode.IH[OF c e'] have "fst e' \<noteq> []" by simp
  with e show ?case by (cases "fst e'") (auto simp: isFolder_def)
qed

lemma tag_insertParts: "tag (insertParts ckey rp parts node) = tag node"
  by (cases parts; cases node) (auto simp: tag_def isFolder_def)

lemma isFolderNamed_tag: "isFolderNamed m c \<longleftrightarrow> tag c = (True, m)"
  by (auto simp: isFolderNamed_def tag_def)

lemma sum_list_updateFirst:
  fixes G :: "'a \<Rightarrow> 'b multiset"
  assumes "\<exists>x\<in>set xs. P x" "\<And>x. x \<in> set xs \<Longrightarrow> P x \<Longrightarrow> G (f x) = add_mset e (G x)"
  shows "sum_list (map G (updateFirst P f xs)) = add_mset e (sum_list (map G xs))"
  using assms by (induction xs) auto

lemma sum_list_sortChildren:
  fixes G :: "tree_node \<Rightarrow> 'b multiset"
  shows "sum_list (map G (sortChildren ckey cs)) = sum_list (map G cs)"
proof -
  have "sum_list (map G xs) = sum_mset (image_mset G (mset xs))" for xs
    by (induction xs) simp_all
  then show ?thesis by (simp add: sortChildren_def)
qed

lemma flat_insertParts:
  "parts \<noteq> [] \<Longrightarrow> isFolder node \<Longrightarrow>
   flat (insertParts ckey rp parts node) = add_mset (nodeName node # parts, rp) (flat node)"
proof (induction parts arbitrary: node)
  case Nil
  then show ?case by simp
next
  case (Cons name rest)
  from Cons.prems(2) obtain n cs where node: "node = FolderNode n cs"
    by (cases node) (auto simp: isFolder_def)
  show ?case
  proof (cases "rest = []")
    case True
    then show ?thesis by (simp add: node)
  next
    case False
    let ?G = "\<lambda>c. image_mset (\<lambda>e. (n # fst e, snd e)) (flat c)"
    have step: "?G (insertParts ckey rp rest x) = add_mset (n # name # rest, rp) (?G x)"
      if "isFolderNamed name x" for x
      using that Cons.IH[OF False, of x] by (simp add: isFolderNamed_def)
    show ?thesis
    proof (cases "\<exists>child\<in>set cs. isFolderNamed name child")
      case True
      have "sum_list (map ?G (updateFirst (isFolderNamed name) (insertParts ckey rp rest) cs))
          = add_mset (n # name # rest, rp) (sum_list (map ?G cs))"
        using True step by (intro sum_list_updateFirst) auto
      with True False show ?thesis by (simp add: node)
    next
      case nofolder: False
      let ?cs = "sortChildren ckey (cs @ [FolderNode name []])"
      have ex: "\<exists>x\<in>set ?cs. isFolderNamed name x"
        by (auto simp: isFolderNamed_def isFolder_def)
      have "sum_list (map ?G (updateFirst (isFolderNamed name) (insertParts ckey rp rest) ?cs))
          = add_mset (n # name # rest, rp) (sum_list (map ?G ?cs))"
        using ex step by (intro sum_list_updateFirst) auto
      with nofolder False show ?thesis by (simp add: node sum_list_sortChildren)
    qed
  qed
qed

lemma map_tag_updateFirst:
  "(\<And>x. tag (f x) = tag x) \<Longrightarrow> map tag (updateFirst P f xs) = map tag xs"
  by (induction xs) auto

lemma folderNames_tag:
  "map nodeName (filter isFolder cs) = map snd (filter fst (map tag cs))"
  by (induction cs) (auto simp: tag_def)

lemma folderNames_sortChildren:
  "distinct (map nodeName (filter isFolder (sortChildren ckey cs)))
     = distinct (map nodeName (filter isFolder cs))"
proof -
  have "mset (map nodeName (filter isFolder (sortChildren ckey cs)))
      = mset (map nodeName (filter isFolder cs))"
    by (simp add: sortChildren_def)
  then show ?thesis by (rule mset_eq_imp_distinct_iff)
qed

lemma updateFirst_cases:
  assumes "distinct (map nodeName (filter isFolder xs))"
    "c \<in> set (updateFirst (isFolderNamed m) f xs)"
  shows "(c \<in> set xs \<and> \<not> isFolderNamed m c) \<or> (\<exists>x\<in>set xs. isFolderNamed m x \<and> c = f x)"
  using assms
proof (induction xs)
  case Nil
  then show ?case by simp
next
  case (Cons x xs)
  show ?case
  proof (cases "isFolderNamed m x")
    case True
    with Cons.prems(2) have "c = f x \<or> c \<in> set xs" by simp
    then show ?thesis
    proof
      assume "c = f x"
      with True show ?thesis by auto
    next
      assume c: "c \<in> set xs"
      have "\<not> isFolderNamed m c"
      proof
        assume "isFolderNamed m c"
        with c have "m \<in> set (map nodeName (filter isFolder xs))"
          by (force simp: isFolderNamed_def)
        with True Cons.prems(1) show False by (simp add: isFolderNamed_def)
      qed
      with c show ?thesis by simp
    qed
  next
    case False
    with Cons.prems(2) have "c = x \<or> c \<in> set (updateFirst (isFolderNamed m) f xs)" by simp
    then show ?thesis
    proof
      assume "c = x"
      with False show ?thesis by simp
    next
      assume c: "c \<in> set (updateFirst (isFolderNamed m) f xs)"
      from Cons.prems(1) have "distinct (map nodeName (filter isFolder xs))"
        by (simp split: if_splits)
      from Cons.IH[OF this c] show ?thesis by auto
    qed
  qed
qed

lemma wellFormed_insertParts:
  "parts \<noteq> [] \<Longrightarrow> isFolder node \<Longrightarrow> wellFormed node \<Longrightarrow>
   wellFormed (insertParts ckey rp parts node)"
proof (induction parts arbitrary: node)
  case Nil
  then show ?case by simp
next
  case (Cons name rest)
  from Cons.prems(2) obtain n cs where node: "node = FolderNode n cs"
    by (cases node) (auto simp: isFolder_def)
  from Cons.prems(3) node have dt: "distinct (map nodeName (filter isFolder cs))"
    and ch: "\<And>c. c \<in> set cs \<Longrightarrow> wellFormed c \<and> (isFolder c \<longrightarrow> flat c \<noteq> {#})"
    by auto
  show ?case
  proof (cases "rest = []")
    case True
    with dt ch show ?thesis by (auto simp: node isFolder_def)
  next
    case False
    let ?ins = "insertParts ckey rp rest"
    have good: "wellFormed (?ins x) \<and> (isFolder (?ins x) \<longrightarrow> flat (?ins x) \<noteq> {#})"
      if x: "isFolderNamed name x" "wellFormed x" for x
    proof -
      from x(1) have f: "isFolder x" by (auto simp: isFolderNamed_def)
      from Cons.IH[OF False f x(2)] have "wellFormed (?ins x)" .
      moreover have "flat (?ins x) \<noteq> {#}" by (simp add: flat_insertParts[OF False f])
      ultimately show ?thesis by simp
    qed
    have result: "wellFormed (FolderNode n (updateFirst (isFolderNamed name) ?ins xs))"
      if dx: "distinct (map nodeName (filter isFolder xs))"
        and old: "\<And>c. c \<in> set xs \<Longrightarrow> \<not> isFolderNamed name c \<Longrightarrow>
                    wellFormed c \<and> (isFolder c \<longrightarrow> flat c \<noteq> {#})"
        and upd: "\<And>c. c \<in> set xs \<Longrightarrow> isFolderNamed name c \<Longrightarrow>
                    wellFormed (?ins c) \<and> (isFolder (?ins c) \<longrightarrow> flat (?ins c) \<noteq> {#})"
      for xs
    proof -
      have "map tag (updateFirst (isFolderNamed name) ?ins xs) = map tag xs"
        by (simp add: map_tag_updateFirst tag_insertParts)
      then have "distinct (map nodeName (filter isFolder (updateFirst (isFolderNamed name) ?ins xs)))"
        using dx by (simp add: folderNames_tag)
      moreover have "wellFormed c \<and> (isFolder c \<longrightarrow> flat c \<noteq> {#})"
        if "c \<in> set (updateFirst (isFolderNamed name) ?ins xs)" for c
        using updateFirst_cases[OF dx that] old upd by blast
      ultimately show ?thesis by simp
    qed
    show ?thesis
    proof (cases "\<exists>child\<in>set cs. isFolderNamed name child")
      case True
      have "wellFormed (FolderNode n (updateFirst (isFolderNamed name) ?ins cs))"
      proof (rule result[OF dt])
        fix c assume "c \<in> set cs" "\<not> isFolderNamed name c"
        then show "wellFormed c \<and> (isFolder c \<longrightarrow> flat c \<noteq> {#})" using ch by simp
      next
        fix c assume c: "c \<in> set cs" "isFolderNamed name c"
        with ch show "wellFormed (?ins c) \<and> (isFolder (?ins c) \<longrightarrow> flat (?ins c) \<noteq> {#})"
          by (intro good) auto
      qed
      with True False show ?thesis by (simp add: node)
    next
      case nofolder: False
      let ?new = "FolderNode name []"
      let ?xs = "sortChildren ckey (cs @ [?new])"
      have "name \<notin> set (map nodeName (filter isFolder cs))"
        using nofolder by (auto simp: isFolderNamed_def)
      with dt have dx: "distinct (map nodeName (filter isFolder ?xs))"
        by (simp add: folderNames_sortChildren isFolder_def)
      have "wellFormed (FolderNode n (updateFirst (isFolderNamed name) ?ins ?xs))"
      proof (rule result[OF dx])
        fix c assume "c \<in> set ?xs" "\<not> isFolderNamed name c"
        then show "wellFormed c \<and> (isFolder c \<longrightarrow> flat c \<noteq> {#})"
          using ch by (auto simp: isFolderNamed_def isFolder_def)
      next
        fix c assume c: "c \<in> set ?xs" "isFolderNamed name c"
        with nofolder have "c = ?new" by auto
        then show "wellFormed (?ins c) \<and> (isFolder (?ins c) \<longrightarrow> flat (?ins c) \<noteq> {#})"
          using c(2) by (intro good) auto
      qed
      with nofolder False show ?thesis by (simp add: node)
    qed
  qed
qed

lemma tag_sortTree: "tag (sortTree ckey c) = tag c"
  by (cases c) (simp_all add: tag_def isFolder_def)

lemma nodeKey_tag: "nodeKey ckey c = (if fst (tag c) then 0 else 1, ckey (snd (tag c)))"
  by (simp add: nodeKey_def tag_def)

lemma nodeKey_sortTree: "nodeKey ckey (sortTree ckey c) = nodeKey ckey c"
  by (simp add: nodeKey_tag tag_sortTree)

lemma map_insort_key:
  "(\<And>x. k (f x) = k x) \<Longrightarrow> map f (insort_key k x xs) = insort_key k (f x) (map f xs)"
  by (induction xs) auto

lemma map_sort_key:
  "(\<And>x. k (f x) = k x) \<Longrightarrow> map f (sort_key k xs) = sort_key k (map f xs)"
  by (induction xs) (simp_all add: map_insort_key)

lemma filter_eq_replicate: "filter (\<lambda>x. x = a) zs = replicate (count (mset zs) a) a"
  by (induction zs) auto

lemma sort_key_mset_unique:
  assumes m: "mset xs = mset ys"
    and inj: "\<And>a b. a \<in> set xs \<Longrightarrow> b \<in> set xs \<Longrightarrow> k a = k b \<Longrightarrow> a = b"
  shows "sort_key k xs = sort_key k ys"
proof (rule properties_for_sort_key)
  show "mset (sort_key k ys) = mset xs" using m by simp
  show "sorted (map k (sort_key k ys))" by simp
  fix a assume "a \<in> set (sort_key k ys)"
  then have a: "a \<in> set xs" using mset_eq_setD[OF m] by simp
  have same: "filter (\<lambda>x. k a = k x) zs = filter (\<lambda>x. x = a) zs" if "set zs = set xs" for zs
    using that a inj by (intro filter_cong) auto
  have "filter (\<lambda>x. k a = k x) (sort_key k ys) = filter (\<lambda>x. k a = k x) ys"
    using sort_key_stable[of k "k a" ys] by (simp add: eq_commute)
  also have "\<dots> = filter (\<lambda>x. x = a) ys" using mset_eq_setD[OF m] by (intro same) simp
  also have "\<dots> = filter (\<lambda>x. x = a) xs" by (simp add: filter_eq_replicate m)
  also have "\<dots> = filter (\<lambda>x. k a = k x) xs" by (rule same[symmetric]) simp
  finally show "filter (\<lambda>x. k a = k x) (sort_key k ys) = filter (\<lambda>x. k a = k x) xs" .
qed

text \<open>The entries of a folder, child by child.\<close>

lemma image_filter_sum_list:
  "image_mset T (filter_mset L (sum_list (map G cs)))
     = sum_list (map (\<lambda>c. image_mset T (filter_mset L (G c))) cs)"
  by (induction cs) simp_all

lemma file_part:
  "image_mset (\<lambda>e. FileNode (fst e ! Suc 0) (snd e))
     (filter_mset (\<lambda>e. length (fst e) = Suc (Suc 0))
        (image_mset (\<lambda>e. (n # fst e, snd e)) (flat c)))
   = (if isFolder c then {#} else {#c#})"
proof (cases "isFolder c")
  case True
  then have "\<forall>e\<in>#flat c. length (fst e) \<noteq> Suc 0"
    using flat_shape by fastforce
  with True show ?thesis by auto
next
  case False
  then obtain m p where "c = FileNode m p" by (cases c) (auto simp: isFolder_def)
  with False show ?thesis by simp
qed

lemma file_children:
  "mset (filter (\<lambda>c. \<not> isFolder c) cs)
   = image_mset (\<lambda>e. FileNode (fst e ! Suc 0) (snd e))
       (filter_mset (\<lambda>e. length (fst e) = Suc (Suc 0)) (flat (FolderNode n cs)))"
proof -
  have "sum_list (map (\<lambda>c. if isFolder c then {#} else {#c#}) cs)
      = mset (filter (\<lambda>c. \<not> isFolder c) cs)"
    by (induction cs) simp_all
  then show ?thesis by (simp add: image_filter_sum_list file_part)
qed

lemma folder_part:
  "image_mset (\<lambda>e. (tl (fst e), snd e))
     (filter_mset (\<lambda>e. Suc (Suc (Suc 0)) \<le> length (fst e) \<and> fst e ! Suc 0 = m)
        (image_mset (\<lambda>e. (n # fst e, snd e)) (flat c)))
   = (if isFolder c \<and> nodeName c = m then flat c else {#})"
proof (cases "isFolder c \<and> nodeName c = m")
  case True
  have all: "Suc (Suc 0) \<le> length (fst e) \<and> fst e ! 0 = m" if "e \<in># flat c" for e
    using flat_shape[OF that] True by (cases "fst e") auto
  have "filter_mset (\<lambda>e. Suc (Suc (Suc 0)) \<le> length (fst e) \<and> fst e ! Suc 0 = m)
          (image_mset (\<lambda>e. (n # fst e, snd e)) (flat c))
      = image_mset (\<lambda>e. (n # fst e, snd e)) (flat c)"
    using all by (auto simp: filter_mset_eq_conv)
  then show ?thesis using True by (simp add: image_mset.compositionality comp_def)
next
  case False
  have none: "\<not> (Suc (Suc 0) \<le> length (fst e) \<and> fst e ! 0 = m)" if "e \<in># flat c" for e
    using flat_shape[OF that] False by (cases "fst e") (auto split: if_splits)
  have "\<not> (Suc (Suc (Suc 0)) \<le> length (fst e') \<and> fst e' ! Suc 0 = m)"
    if "e' \<in># image_mset (\<lambda>e. (n # fst e, snd e)) (flat c)" for e'
  proof -
    from that obtain e where e: "e \<in># flat c" and e': "e' = (n # fst e, snd e)" by auto
    from none[OF e] e' show ?thesis by simp
  qed
  then have "filter_mset (\<lambda>e. Suc (Suc (Suc 0)) \<le> length (fst e) \<and> fst e ! Suc 0 = m)
          (image_mset (\<lambda>e. (n # fst e, snd e)) (flat c)) = {#}"
    unfolding filter_mset_eq_mempty_iff by blast
  with False show ?thesis by auto
qed

lemma only_folder_of_name:
  fixes g :: "tree_node \<Rightarrow> 'b multiset"
  assumes "distinct (map nodeName (filter isFolder cs))" "x \<in> set cs" "isFolder x"
  shows "sum_list (map (\<lambda>c. if isFolder c \<and> nodeName c = nodeName x then g c else {#}) cs) = g x"
  using assms
proof (induction cs)
  case Nil
  then show ?case by simp
next
  case (Cons c cs)
  show ?case
  proof (cases "isFolder c \<and> nodeName c = nodeName x")
    case True
    with Cons.prems(1) have no: "nodeName x \<notin> set (map nodeName (filter isFolder cs))" by simp
    have "\<forall>d\<in>set cs. \<not> (isFolder d \<and> nodeName d = nodeName x)"
    proof (intro ballI notI)
      fix d assume d: "d \<in> set cs" "isFolder d \<and> nodeName d = nodeName x"
      then have "d \<in> set (filter isFolder cs)" by simp
      then have "nodeName d \<in> nodeName ` set (filter isFolder cs)" by (rule imageI)
      with d(2) no show False by simp
    qed
    then have rest: "sum_list (map (\<lambda>c. if isFolder c \<and> nodeName c = nodeName x then g c else {#}) cs)
        = {#}"
      by (induction cs) auto
    from no Cons.prems(2,3) have "x = c" by force
    with True rest show ?thesis by simp
  next
    case False
    with Cons.prems(2,3) have "x \<in> set cs" by auto
    moreover from Cons.prems(1) have "distinct (map nodeName (filter isFolder cs))"
      by (simp split: if_splits)
    ultimately show ?thesis using Cons.IH Cons.prems(3) False by auto
  qed
qed

lemma folder_child_flat:
  assumes "distinct (map nodeName (filter isFolder cs))" "x \<in> set cs" "isFolder x"
  shows "flat x = image_mset (\<lambda>e. (tl (fst e), snd e))
     (filter_mset (\<lambda>e. Suc (Suc (Suc 0)) \<le> length (fst e) \<and> fst e ! Suc 0 = nodeName x)
        (flat (FolderNode n cs)))"
  by (simp add: image_filter_sum_list folder_part only_folder_of_name[OF assms])


lemma child_match:
  assumes wf1: "wellFormed (FolderNode n cs1)" and wf2: "wellFormed (FolderNode n cs2)"
    and fl: "flat (FolderNode n cs1) = flat (FolderNode n cs2)"
    and x: "x \<in> set cs1" and fx: "isFolder x"
  shows "\<exists>y\<in>set cs2. isFolder y \<and> nodeName y = nodeName x \<and> flat y = flat x"
proof -
  from wf1 x fx have "flat x \<noteq> {#}" and d1: "distinct (map nodeName (filter isFolder cs1))"
    by auto
  then obtain e where e: "e \<in># flat x" by (meson multiset_nonemptyE)
  from flat_shape[OF e] fx have len: "2 \<le> length (fst e)" and hd: "hd (fst e) = nodeName x"
    by auto
  from e x have "(n # fst e, snd e) \<in># flat (FolderNode n cs1)"
    unfolding in_flat_folder by blast
  with fl have "(n # fst e, snd e) \<in># flat (FolderNode n cs2)" by simp
  then obtain y e' where y: "y \<in> set cs2" and e': "e' \<in># flat y"
    and eq: "(n # fst e, snd e) = (n # fst e', snd e')"
    unfolding in_flat_folder by blast
  from eq have ee: "e' = e" by (simp add: prod_eq_iff)
  from flat_shape[OF e'] ee len hd have fy: "isFolder y" and ny: "nodeName y = nodeName x"
    by (auto split: if_splits)
  from wf2 have d2: "distinct (map nodeName (filter isFolder cs2))" by simp
  have "flat y = flat x"
    unfolding folder_child_flat[OF d2 y fy, of n] folder_child_flat[OF d1 x fx, of n]
    by (simp only: fl ny)
  with fy ny y show ?thesis by auto
qed

lemma keysApart_mono:
  assumes "S \<subseteq> S'" "keysApart ckey S'"
  shows "keysApart ckey S"
  unfolding keysApart_def
proof (intro ballI)
  fix P Q assume "P \<in> S" "Q \<in> S"
  with assms(1) have "P \<in> S'" "Q \<in> S'" by auto
  with assms(2) show "case dropCommon P Q of
          (x # xs, y # ys) \<Rightarrow> ((xs = []) = (ys = []) \<longrightarrow> ckey x \<noteq> ckey y)
        | _ \<Rightarrow> True"
    unfolding keysApart_def by simp
qed

lemma keysApart_tail: "keysApart ckey ((#) n ` S) \<Longrightarrow> keysApart ckey S"
  unfolding keysApart_def by simp

lemma keysApart_Cons: "keysApart ckey S \<Longrightarrow> keysApart ckey ((#) n ` S)"
  unfolding keysApart_def by simp

lemma entry_of_child:
  "c \<in> set cs \<Longrightarrow> e \<in># flat c \<Longrightarrow> (n # fst e, snd e) \<in># flat (FolderNode n cs)"
  unfolding in_flat_folder by blast

lemma keysApart_child:
  assumes "c \<in> set cs" "keysApart ckey (fst ` set_mset (flat (FolderNode n cs)))"
  shows "keysApart ckey (fst ` set_mset (flat c))"
proof (rule keysApart_tail[of ckey n])
  have "(#) n ` fst ` set_mset (flat c) \<subseteq> fst ` set_mset (flat (FolderNode n cs))"
  proof
    fix P assume "P \<in> (#) n ` fst ` set_mset (flat c)"
    then obtain e where e: "e \<in># flat c" and P: "P = n # fst e" by auto
    from entry_of_child[OF assms(1) e, of n] have "fst (n # fst e, snd e) \<in> fst ` set_mset (flat (FolderNode n cs))"
      by (rule imageI)
    with P show "P \<in> fst ` set_mset (flat (FolderNode n cs))" by simp
  qed
  then show "keysApart ckey ((#) n ` fst ` set_mset (flat c))"
    using assms(2) by (rule keysApart_mono)
qed

lemma pathsAgree_child:
  assumes "c \<in> set cs" "pathsAgree (set_mset (flat (FolderNode n cs)))"
  shows "pathsAgree (set_mset (flat c))"
  unfolding pathsAgree_def
proof (intro ballI impI)
  fix e e' assume e: "e \<in># flat c" "e' \<in># flat c" "fst e = fst e'"
  from entry_of_child[OF assms(1) e(1), of n] entry_of_child[OF assms(1) e(2), of n] assms(2) e(3)
  show "snd e = snd e'" unfolding pathsAgree_def by fastforce
qed

lemma child_entry:
  assumes "wellFormed (FolderNode n cs)" "c \<in> set cs"
  shows "\<exists>e. e \<in># flat c \<and> hd (fst e) = nodeName c \<and> fst e \<noteq> []
           \<and> (length (fst e) = Suc 0 \<longleftrightarrow> \<not> isFolder c)"
proof -
  have "flat c \<noteq> {#}"
  proof (cases "isFolder c")
    case True
    with assms show ?thesis by auto
  next
    case False
    then show ?thesis by (cases c) (auto simp: isFolder_def)
  qed
  then obtain e where e: "e \<in># flat c" by (meson multiset_nonemptyE)
  from flat_shape[OF e] have "hd (fst e) = nodeName c" "fst e \<noteq> []"
    "length (fst e) = Suc 0 \<longleftrightarrow> \<not> isFolder c"
    by (auto split: if_splits)
  with e show ?thesis by blast
qed

lemma children_key_inj:
  assumes wf: "wellFormed (FolderNode n cs)"
    and apart: "keysApart ckey (fst ` set_mset (flat (FolderNode n cs)))"
    and agree: "pathsAgree (set_mset (flat (FolderNode n cs)))"
    and x: "x \<in> set cs" and y: "y \<in> set cs" and k: "nodeKey ckey x = nodeKey ckey y"
  shows "x = y"
proof -
  from k have kind: "isFolder x = isFolder y" and ck: "ckey (nodeName x) = ckey (nodeName y)"
    by (auto simp: nodeKey_def split: if_splits)
  from child_entry[OF wf x] obtain ex where ex: "ex \<in># flat x" "hd (fst ex) = nodeName x"
    "fst ex \<noteq> []" "length (fst ex) = Suc 0 \<longleftrightarrow> \<not> isFolder x" by blast
  from child_entry[OF wf y] obtain ey where ey: "ey \<in># flat y" "hd (fst ey) = nodeName y"
    "fst ey \<noteq> []" "length (fst ey) = Suc 0 \<longleftrightarrow> \<not> isFolder y" by blast
  obtain rx where rx: "fst ex = nodeName x # rx" using ex(2,3) by (cases "fst ex") auto
  obtain ry where ry: "fst ey = nodeName y # ry" using ey(2,3) by (cases "fst ey") auto
  from entry_of_child[OF x ex(1), of n] rx
  have P: "n # nodeName x # rx \<in> fst ` set_mset (flat (FolderNode n cs))"
    by (metis fst_conv imageI)
  from entry_of_child[OF y ey(1), of n] ry
  have Q: "n # nodeName y # ry \<in> fst ` set_mset (flat (FolderNode n cs))"
    by (metis fst_conv imageI)
  from ex(4) ey(4) kind rx ry have same: "(rx = []) = (ry = [])" by simp
  have names: "nodeName x = nodeName y"
  proof (rule ccontr)
    assume ne: "nodeName x \<noteq> nodeName y"
    then have "dropCommon (n # nodeName x # rx) (n # nodeName y # ry)
        = (nodeName x # rx, nodeName y # ry)" by simp
    with apart P Q same have "ckey (nodeName x) \<noteq> ckey (nodeName y)"
      unfolding keysApart_def by fastforce
    with ck show False by simp
  qed
  show ?thesis
  proof (cases "isFolder x")
    case True
    with kind have fy: "isFolder y" by simp
    from wf have "inj_on nodeName (set (filter isFolder cs))" by (simp add: distinct_map)
    moreover from x True have "x \<in> set (filter isFolder cs)" by simp
    moreover from y fy have "y \<in> set (filter isFolder cs)" by simp
    ultimately show ?thesis using names by (meson inj_onD)
  next
    case False
    with kind have ny: "\<not> isFolder y" by simp
    from False obtain p where xp: "x = FileNode (nodeName x) p"
      by (cases x) (auto simp: isFolder_def)
    from ny obtain q where yq: "y = FileNode (nodeName y) q"
      by (cases y) (auto simp: isFolder_def)
    have "([nodeName x], p) \<in># flat x" by (subst xp) simp
    from entry_of_child[OF x this, of n]
    have ex': "(n # [nodeName x], p) \<in># flat (FolderNode n cs)" by simp
    have "([nodeName y], q) \<in># flat y" by (subst yq) simp
    from entry_of_child[OF y this, of n]
    have ey': "(n # [nodeName y], q) \<in># flat (FolderNode n cs)" by simp
    from agree ex' ey' names have "p = q" unfolding pathsAgree_def by fastforce
    with xp yq names show ?thesis by metis
  qed
qed

lemma sortTree_file: "\<not> isFolder c \<Longrightarrow> sortTree ckey c = c"
  by (cases c) (auto simp: isFolder_def)

lemma nodeName_sortTree: "nodeName (sortTree ckey c) = nodeName c"
  by (cases c) simp_all

lemma mset_map_partition:
  "mset (map f xs) = mset (map f (filter P xs)) + mset (map f (filter (\<lambda>x. \<not> P x) xs))"
  by (induction xs) simp_all

lemma distinct_of_map: "distinct (map f xs) \<Longrightarrow> distinct xs"
  by (simp add: distinct_map)

lemma sortTree_flat_unique:
  assumes "wellFormed t1" "wellFormed t2" "tag t1 = tag t2" "flat t1 = flat t2"
    "keysApart ckey (fst ` set_mset (flat t1))" "pathsAgree (set_mset (flat t1))"
  shows "sortTree ckey t1 = sortTree ckey t2"
  using assms
proof (induction t1 arbitrary: t2)
  case (FileNode n p)
  from FileNode.prems(3) obtain q where t2: "t2 = FileNode n q"
    by (cases t2) (auto simp: tag_def isFolder_def)
  with FileNode.prems(4) show ?case by simp
next
  case (FolderNode n cs1)
  from FolderNode.prems(3) obtain cs2 where t2: "t2 = FolderNode n cs2"
    by (cases t2) (auto simp: tag_def isFolder_def)
  note wf1 = FolderNode.prems(1)
  note wf2 = FolderNode.prems(2)[unfolded t2]
  note fl = FolderNode.prems(4)[unfolded t2]
  note apart = FolderNode.prems(5)
  note agree = FolderNode.prems(6)
  let ?F1 = "filter isFolder cs1" and ?F2 = "filter isFolder cs2"
  have same: "sortTree ckey x = sortTree ckey y"
    if x: "x \<in> set cs1" and y: "y \<in> set cs2" and f: "isFolder x" "isFolder y"
      and m: "nodeName y = nodeName x" "flat y = flat x" for x y
  proof (rule FolderNode.IH[OF x])
    from wf1 x show "wellFormed x" by simp
    from wf2 y show "wellFormed y" by simp
    from m f show "tag x = tag y" by (simp add: tag_def)
    from m show "flat x = flat y" by simp
    show "keysApart ckey (fst ` set_mset (flat x))" by (rule keysApart_child[OF x apart])
    show "pathsAgree (set_mset (flat x))" by (rule pathsAgree_child[OF x agree])
  qed
  have files: "mset (map (sortTree ckey) (filter (\<lambda>c. \<not> isFolder c) cs1))
      = mset (map (sortTree ckey) (filter (\<lambda>c. \<not> isFolder c) cs2))"
  proof -
    have "map (sortTree ckey) (filter (\<lambda>c. \<not> isFolder c) cs) = filter (\<lambda>c. \<not> isFolder c) cs"
      for cs
      by (rule map_idI) (simp add: sortTree_file)
    moreover have "mset (filter (\<lambda>c. \<not> isFolder c) cs1) = mset (filter (\<lambda>c. \<not> isFolder c) cs2)"
      unfolding file_children[of cs1 n] file_children[of cs2 n] by (simp only: fl)
    ultimately show ?thesis by simp
  qed
  have "set (map (sortTree ckey) ?F1) = set (map (sortTree ckey) ?F2)"
  proof (intro equalityI subsetI)
    fix s assume "s \<in> set (map (sortTree ckey) ?F1)"
    then obtain x where x: "x \<in> set cs1" "isFolder x" and s: "s = sortTree ckey x" by auto
    from child_match[OF wf1 wf2 fl x] obtain y where y: "y \<in> set cs2" "isFolder y"
      and m: "nodeName y = nodeName x" "flat y = flat x" by auto
    from same[OF x(1) y(1) x(2) y(2) m] s y show "s \<in> set (map (sortTree ckey) ?F2)" by auto
  next
    fix s assume "s \<in> set (map (sortTree ckey) ?F2)"
    then obtain y where y: "y \<in> set cs2" "isFolder y" and s: "s = sortTree ckey y" by auto
    from child_match[OF wf2 wf1 fl[symmetric] y] obtain x where x: "x \<in> set cs1" "isFolder x"
      and m: "nodeName x = nodeName y" "flat x = flat y" by auto
    from same[OF x(1) y(1) x(2) y(2)] m s have "s = sortTree ckey x" by simp
    with x show "s \<in> set (map (sortTree ckey) ?F1)" by simp
  qed
  moreover have "distinct (map (sortTree ckey) ?F1)"
  proof (rule distinct_of_map[of nodeName])
    from wf1 show "distinct (map nodeName (map (sortTree ckey) ?F1))"
      by (simp add: comp_def nodeName_sortTree)
  qed
  moreover have "distinct (map (sortTree ckey) ?F2)"
  proof (rule distinct_of_map[of nodeName])
    from wf2 show "distinct (map nodeName (map (sortTree ckey) ?F2))"
      by (simp add: comp_def nodeName_sortTree)
  qed
  ultimately have folders: "mset (map (sortTree ckey) ?F1) = mset (map (sortTree ckey) ?F2)"
    by (simp only: set_eq_iff_mset_eq_distinct)
  have all: "mset (map (sortTree ckey) cs1) = mset (map (sortTree ckey) cs2)"
    unfolding mset_map_partition[of "sortTree ckey" cs1 isFolder]
      mset_map_partition[of "sortTree ckey" cs2 isFolder]
    by (simp only: files folders)
  have "sort_key (nodeKey ckey) (map (sortTree ckey) cs1)
      = sort_key (nodeKey ckey) (map (sortTree ckey) cs2)"
  proof (rule sort_key_mset_unique[OF all])
    fix a b assume "a \<in> set (map (sortTree ckey) cs1)" "b \<in> set (map (sortTree ckey) cs1)"
      and k: "nodeKey ckey a = nodeKey ckey b"
    then obtain x y where x: "x \<in> set cs1" "a = sortTree ckey x"
      and y: "y \<in> set cs1" "b = sortTree ckey y" by auto
    with k have "nodeKey ckey x = nodeKey ckey y" by (simp add: nodeKey_sortTree)
    from children_key_inj[OF wf1 apart agree x(1) y(1) this] x y show "a = b" by simp
  qed
  then have "map (sortTree ckey) (sortChildren ckey cs1) = map (sortTree ckey) (sortChildren ckey cs2)"
    by (simp add: sortChildren_def map_sort_key nodeKey_sortTree)
  then show ?case by (simp add: t2)
qed

lemma sortedTree_sortTree: "sortedTree ckey (sortTree ckey t)"
proof (induction t)
  case (FileNode n p)
  show ?case by simp
next
  case (FolderNode n cs)
  have "map (nodeKey ckey) (map (sortTree ckey) (sortChildren ckey cs))
      = map (nodeKey ckey) (sort_key (nodeKey ckey) cs)"
    by (simp add: comp_def nodeKey_sortTree sortChildren_def)
  then have "sorted (map (nodeKey ckey) (map (sortTree ckey) (sortChildren ckey cs)))"
    by simp
  with FolderNode.IH show ?case by simp
qed

lemma nodeKey_le:
  "nodeKey ckey a \<le> nodeKey ckey b \<longleftrightarrow>
     (isFolder a \<and> \<not> isFolder b)
     \<or> (isFolder a = isFolder b \<and> ckey (nodeName a) \<le> ckey (nodeName b))"
  by (auto simp: nodeKey_def less_eq_prod_def)

lemma foldl_insertFile:
  assumes "isFolder t" "wellFormed t"
  shows "tag (foldl (insertFile ckey cwd rootDir) t ps) = tag t
     \<and> wellFormed (foldl (insertFile ckey cwd rootDir) t ps)
     \<and> flat (foldl (insertFile ckey cwd rootDir) t ps)
         = flat t + image_mset (\<lambda>p. (nodeName t # partsOf cwd rootDir p, relPathOf cwd rootDir p))
                      (filter_mset (\<lambda>p. partsOf cwd rootDir p \<noteq> []) (mset ps))"
  using assms
proof (induction ps arbitrary: t)
  case Nil
  then show ?case by simp
next
  case (Cons p ps)
  let ?t = "insertFile ckey cwd rootDir t p"
  let ?parts = "partsOf cwd rootDir p"
  let ?rp = "relPathOf cwd rootDir p"
  have ins: "?t = insertParts ckey ?rp ?parts t"
    by (simp add: insertFile_def partsOf_def Let_def)
  have tg: "tag ?t = tag t" by (simp add: ins tag_insertParts)
  then have f: "isFolder ?t" and nm: "nodeName ?t = nodeName t"
    using Cons.prems(1) by (auto simp: tag_def)
  have wf: "wellFormed ?t"
  proof (cases "?parts = []")
    case True
    with Cons.prems(2) show ?thesis by (simp add: ins)
  next
    case False
    with Cons.prems(1,2) show ?thesis
      unfolding ins by (intro wellFormed_insertParts)
  qed
  have fl: "flat ?t = (if ?parts = [] then flat t else add_mset (nodeName t # ?parts, ?rp) (flat t))"
    using Cons.prems(1) by (simp add: ins flat_insertParts)
  from Cons.IH[OF f wf] show ?case
    by (auto simp: tg nm fl)
qed

text \<open>
  C7 (as amended). Let the paths of the input with the same parts relative to the root have
  the same relative path, and let the collation tell apart the names that meet in one
  folder: two files of one folder, or two folders of one folder, with different names have
  different keys. Then every permutation of the input list yields the same tree, and in this
  tree the children of every folder are sorted: folders before files and, within one kind,
  by the collation key of the name (\<open>nodeKey_le\<close> spells the order out).
\<close>

theorem tree_is_order_independent:
  assumes "mset filePathsAbs' = mset filePathsAbs"
    and "pathsAgree (set (map (\<lambda>p. (partsOf cwd rootDir p, relPathOf cwd rootDir p)) filePathsAbs))"
    and "keysApart ckey (set (map (partsOf cwd rootDir) filePathsAbs))"
  shows "buildFileTreeFromPaths ckey cwd rootDir filePathsAbs'
           = buildFileTreeFromPaths ckey cwd rootDir filePathsAbs
       \<and> sortedTree ckey (buildFileTreeFromPaths ckey cwd rootDir filePathsAbs)"
proof -
  define root where "root = FolderNode ''root'' []"
  define t where "t = foldl (insertFile ckey cwd rootDir) root filePathsAbs"
  define t' where "t' = foldl (insertFile ckey cwd rootDir) root filePathsAbs'"
  define entry where
    "entry = (\<lambda>p. (''root'' # partsOf cwd rootDir p, relPathOf cwd rootDir p))"
  have f: "isFolder root" and w: "wellFormed root" and nm: "nodeName root = ''root''"
    and fr: "flat root = {#}"
    by (simp_all add: isFolder_def root_def)
  note r = foldl_insertFile[OF f w, of ckey cwd rootDir filePathsAbs, folded t_def, unfolded nm fr]
  note r' = foldl_insertFile[OF f w, of ckey cwd rootDir filePathsAbs', folded t'_def, unfolded nm fr]
  from r have wf: "wellFormed t" by simp
  from r' have wf': "wellFormed t'" by simp
  from r r' have tg: "tag t' = tag t" by simp
  from r have flt: "flat t = image_mset entry
      (filter_mset (\<lambda>p. partsOf cwd rootDir p \<noteq> []) (mset filePathsAbs))"
    by (simp add: entry_def)
  from r' have "flat t' = image_mset entry
      (filter_mset (\<lambda>p. partsOf cwd rootDir p \<noteq> []) (mset filePathsAbs'))"
    by (simp add: entry_def)
  with flt assms(1) have fl: "flat t' = flat t" by simp
  have mem: "\<exists>p\<in>set filePathsAbs. e = entry p" if "e \<in># flat t'" for e
  proof -
    from that have "e \<in> entry ` {p \<in> set filePathsAbs. partsOf cwd rootDir p \<noteq> []}"
      unfolding fl flt by simp
    then show ?thesis by blast
  qed
  have "fst ` set_mset (flat t') \<subseteq> (#) ''root'' ` set (map (partsOf cwd rootDir) filePathsAbs)"
  proof
    fix P assume "P \<in> fst ` set_mset (flat t')"
    then obtain e where e: "e \<in># flat t'" "P = fst e" by blast
    from mem[OF e(1)] obtain p where p: "p \<in> set filePathsAbs" "e = entry p" by blast
    from e(2) p(2) have "P = ''root'' # partsOf cwd rootDir p" by (simp add: entry_def)
    with p(1) have "p \<in> set filePathsAbs" "P = ''root'' # partsOf cwd rootDir p" by simp_all
    then show "P \<in> (#) ''root'' ` set (map (partsOf cwd rootDir) filePathsAbs)" by simp
  qed
  moreover have "keysApart ckey ((#) ''root'' ` set (map (partsOf cwd rootDir) filePathsAbs))"
    using assms(3) by (rule keysApart_Cons)
  ultimately have apart: "keysApart ckey (fst ` set_mset (flat t'))" by (rule keysApart_mono)
  have agree: "pathsAgree (set_mset (flat t'))"
    unfolding pathsAgree_def
  proof (intro ballI impI)
    fix e e' assume e: "e \<in># flat t'" "e' \<in># flat t'" "fst e = fst e'"
    from mem[OF e(1)] obtain p where p: "p \<in> set filePathsAbs" "e = entry p" by blast
    from mem[OF e(2)] obtain q where q: "q \<in> set filePathsAbs" "e' = entry q" by blast
    let ?pair = "\<lambda>p. (partsOf cwd rootDir p, relPathOf cwd rootDir p)"
    from p(1) have P: "?pair p \<in> set (map ?pair filePathsAbs)" by simp
    from q(1) have Q: "?pair q \<in> set (map ?pair filePathsAbs)" by simp
    from e(3) p(2) q(2) have "fst (?pair p) = fst (?pair q)" by (simp add: entry_def)
    with assms(2) P Q have "snd (?pair p) = snd (?pair q)"
      unfolding pathsAgree_def by blast
    with p(2) q(2) show "snd e = snd e'" by (simp add: entry_def)
  qed
  have "sortTree ckey t' = sortTree ckey t"
    by (rule sortTree_flat_unique[OF wf' wf tg fl apart agree])
  then show ?thesis
    by (simp add: buildFileTreeFromPaths_def sortedTree_sortTree t_def t'_def root_def)
qed


text \<open>
  An input within the theorem: the names \<^verbatim>\<open>a\<close> and \<^verbatim>\<open>a\<close> followed by U+0001 have the
  same key and lie in different folders, and one path occurs twice.
\<close>

theorem tree_is_order_independent_witness:
  "controlBlindKey ''a'' = controlBlindKey (''a'' @ [CHR 0x01])
   \<and> buildFileTreeFromPaths controlBlindKey ''/srv'' ''/job''
       [''/job/README.md'', ''/job/lib/a'' @ [CHR 0x01], ''/job/src/a'', ''/job/src/index.js'',
        ''/job/src/a'']
     = FolderNode ''root''
         [FolderNode ''lib'' [FileNode (''a'' @ [CHR 0x01]) (''lib/a'' @ [CHR 0x01])],
          FolderNode ''src'' [FileNode ''a'' ''src/a'', FileNode ''a'' ''src/a'',
                              FileNode ''index.js'' ''src/index.js''],
          FileNode ''README.md'' ''README.md'']"
proof -
  let ?paths = "[''/job/src/index.js'', ''/job/src/a'', ''/job/src/a'', ''/job/lib/a'' @ [CHR 0x01],
                 ''/job/README.md'']"
  let ?paths' = "[''/job/README.md'', ''/job/lib/a'' @ [CHR 0x01], ''/job/src/a'',
                  ''/job/src/index.js'', ''/job/src/a'']"
  have h1: "mset ?paths' = mset ?paths" by simp
  have h2: "pathsAgree (set (map (\<lambda>p. (partsOf ''/srv'' ''/job'' p, relPathOf ''/srv'' ''/job'' p))
                ?paths))"
    by code_simp
  have h3: "keysApart controlBlindKey (set (map (partsOf ''/srv'' ''/job'') ?paths))"
    by code_simp
  have k: "controlBlindKey ''a'' = controlBlindKey (''a'' @ [CHR 0x01])" by code_simp
  have v: "buildFileTreeFromPaths controlBlindKey ''/srv'' ''/job'' ?paths
      = FolderNode ''root''
         [FolderNode ''lib'' [FileNode (''a'' @ [CHR 0x01]) (''lib/a'' @ [CHR 0x01])],
          FolderNode ''src'' [FileNode ''a'' ''src/a'', FileNode ''a'' ''src/a'',
                              FileNode ''index.js'' ''src/index.js''],
          FileNode ''README.md'' ''README.md'']"
    by code_simp
  from tree_is_order_independent[OF h1 h2 h3] v k show ?thesis by simp
qed

text \<open>
  C7 as stated fails in two ways. Under a collation that passes over control characters, as
  the default Unicode collation does, the files \<^verbatim>\<open>a\<close> and \<^verbatim>\<open>a\<close> followed by U+0001 of
  one folder tie in the comparison, and the stable sort leaves them in the order of the
  input; both are names that an uploaded archive can carry. And whatever the collation, two
  different paths can have the same parts: a file \<^verbatim>\<open>b\<close> and a file whose name is a
  backslash followed by \<^verbatim>\<open>b\<close>, both in the folder \<^verbatim>\<open>a\<close>; the backslash becomes a
  slash, the empty part is dropped, and the two file nodes have the same name and different
  paths.
\<close>

theorem tree_depends_on_order_counterexample:
  "buildFileTreeFromPaths controlBlindKey ''/srv'' ''/job'' [''/job/a'', ''/job/a'' @ [CHR 0x01]]
   = FolderNode ''root'' [FileNode ''a'' ''a'', FileNode (''a'' @ [CHR 0x01]) (''a'' @ [CHR 0x01])]
   \<and> buildFileTreeFromPaths controlBlindKey ''/srv'' ''/job'' [''/job/a'' @ [CHR 0x01], ''/job/a'']
   = FolderNode ''root'' [FileNode (''a'' @ [CHR 0x01]) (''a'' @ [CHR 0x01]), FileNode ''a'' ''a'']
   \<and> buildFileTreeFromPaths codeUnitKey ''/srv'' ''/job''
     [''/job/a/b'', ''/job/a/'' @ [backslash] @ ''b'']
   = FolderNode ''root'' [FolderNode ''a'' [FileNode ''b'' ''a/b'', FileNode ''b'' ''a//b'']]
   \<and> buildFileTreeFromPaths codeUnitKey ''/srv'' ''/job''
     [''/job/a/'' @ [backslash] @ ''b'', ''/job/a/b'']
   = FolderNode ''root'' [FolderNode ''a'' [FileNode ''b'' ''a//b'', FileNode ''b'' ''a/b'']]"
  by code_simp

end
